theory Spec2Isabelle
  imports Complex_Main "HOL-Library.Word" "HOL-Library.List_Lexorder"
begin

section \<open>Data model of the B-tree index (btreeidx.cc)\<close>

text \<open>
  Narrow strings (\<open>std::string\<close>, \<open>vector<char>\<close>) are lists of bytes, compared as
  \<open>std::string\<close> compares them: lexicographically on the unsigned byte values. Wide
  strings (\<open>gd::wstring\<close>) are lists of 32-bit characters. Sizes, counts and file offsets
  are natural numbers; where the source stores one in a \<open>uint32_t\<close> the reduction modulo
  \<open>2 ^ 32\<close> is written out (\<open>u32\<close>).
\<close>

type_synonym byte = "8 word"
type_synonym bytes = "byte list"
type_synonym wchar = "32 word"
type_synonym wstring = "wchar list"

definition u32 :: "nat \<Rightarrow> nat" where
  "u32 n = n mod 2 ^ 32"

record WordArticleLink =
  word :: bytes
  articleOffset :: "32 word"
  prefix :: bytes

type_synonym chain = "WordArticleLink list"

text \<open>
  \<open>IndexedWords\<close> is a \<open>std::map< string, vector< WordArticleLink > >\<close>: the entries in
  the order the map's iterator yields them, that is, by ascending key, each key once.
\<close>

type_synonym IndexedWords = "(bytes \<times> chain) list"

definition iw_ok :: "IndexedWords \<Rightarrow> bool" where
  "iw_ok m = (sorted (map fst m) \<and> distinct (map fst m))"

text \<open>
  The collaborators that are not part of btreeidx.cc (folding.hh, utf8.hh, zlib) are
  parameters of the model: \<open>Folding::apply\<close>, \<open>Folding::applySimpleCaseOnly\<close>,
  \<open>Folding::isWhitespace\<close>, \<open>Folding::isPunct\<close>, \<open>Utf8::encode\<close>, \<open>Utf8::decode\<close>
  (\<open>None\<close> where the source reports a decoding failure), zlib's \<open>compress\<close> and
  \<open>uncompress\<close> (\<open>None\<close> where the result is not \<open>Z_OK\<close>).
\<close>

record env =
  Folding_apply :: "wstring \<Rightarrow> wstring"
  applySimpleCaseOnly :: "wstring \<Rightarrow> wstring"
  isWhitespace :: "wchar \<Rightarrow> bool"
  isPunct :: "wchar \<Rightarrow> bool"
  Utf8_encode :: "wstring \<Rightarrow> bytes"
  Utf8_decode :: "bytes \<Rightarrow> wstring option"
  compress :: "bytes \<Rightarrow> bytes"
  uncompress :: "bytes \<Rightarrow> bytes option"

text \<open>
  A sample instance for evaluating the model on concrete inputs: ASCII text, folding
  that lowers the case of Latin letters, one byte per character, the identity codec.
\<close>

definition toLower :: "wchar \<Rightarrow> wchar" where
  "toLower c = (if 65 \<le> c \<and> c \<le> 90 then c + 32 else c)"

definition plain_env :: env where
  "plain_env = \<lparr>
     Folding_apply = map toLower,
     applySimpleCaseOnly = map toLower,
     isWhitespace = (\<lambda>c. c = 32 \<or> c = 9),
     isPunct = (\<lambda>c. c = 44 \<or> c = 46 \<or> c = 45),
     Utf8_encode = map ucast,
     Utf8_decode = (\<lambda>bs. if list_all (\<lambda>b. b < 128) bs then Some (map ucast bs) else None),
     compress = (\<lambda>bs. bs),
     uncompress = Some \<rparr>"

section \<open>IndexedWords: insertion\<close>

text \<open>
  \<open>std::map::insert( value_type )\<close>: when the key is present the map is left as it is;
  otherwise the pair is inserted at its place in the key order.
\<close>

definition iw_insert :: "bytes \<Rightarrow> chain \<Rightarrow> IndexedWords \<Rightarrow> IndexedWords" where
  "iw_insert k v m =
     (case map_of m k of Some c \<Rightarrow> m | None \<Rightarrow> insort_key fst (k, v) m)"

text \<open>The chain stored under a key (empty when the key is absent).\<close>

definition chain_of :: "IndexedWords \<Rightarrow> bytes \<Rightarrow> chain" where
  "chain_of m k = (case map_of m k of Some c \<Rightarrow> c | None \<Rightarrow> [])"

definition addSingleWord :: "env \<Rightarrow> IndexedWords \<Rightarrow> wstring \<Rightarrow> 32 word \<Rightarrow> IndexedWords" where
  "addSingleWord E m w off =
     (let links = [\<lparr>word = Utf8_encode E w, articleOffset = off, prefix = []\<rparr>]
      in iw_insert (Utf8_encode E (Folding_apply E w)) links m)"

section \<open>Properties of insertion\<close>

lemma map_of_insort_key_same:
  "map_of m k = None \<Longrightarrow> map_of (insort_key fst (k, v) m) k = Some v"
  by (induction m) (auto split: if_splits)

lemma map_of_insort_key_other:
  "k' \<noteq> k \<Longrightarrow> map_of (insort_key fst (k, v) m) k' = map_of m k'"
  by (induction m) auto

lemma map_of_iw_insert:
  "map_of (iw_insert k v m) k' =
     (if k' = k \<and> map_of m k = None then Some v else map_of m k')"
  by (auto simp: iw_insert_def map_of_insort_key_same map_of_insort_key_other
      split: option.splits)

lemma iw_ok_insert: "iw_ok m \<Longrightarrow> iw_ok (iw_insert k v m)"
proof -
  assume ok: "iw_ok m"
  show ?thesis
  proof (cases "map_of m k")
    case None
    then have "k \<notin> fst ` set m"
      by (simp add: map_of_eq_None_iff)
    moreover have "map fst (insort_key fst (k, v) m) = insort k (map fst m)"
      by (induction m) auto
    ultimately show ?thesis
      using ok None by (simp add: iw_ok_def iw_insert_def sorted_insort distinct_insort)
  next
    case (Some c)
    then show ?thesis using ok by (simp add: iw_insert_def)
  qed
qed

text \<open>
  C10. \<open>addSingleWord\<close> leaves the map exactly as it was when the folded key of the word
  is already a key of the map: the new link is not appended to the existing chain. Hence
  of two insertions under one folded key only the first is kept.
\<close>

theorem addSingleWord_key_present:
  "map_of m (Utf8_encode E (Folding_apply E w)) \<noteq> None \<Longrightarrow>
     addSingleWord E m w off = m \<and>
     addSingleWord E (addSingleWord E m' w off') w off = addSingleWord E m' w off'"
proof -
  assume present: "map_of m (Utf8_encode E (Folding_apply E w)) \<noteq> None"
  let ?k = "Utf8_encode E (Folding_apply E w)"
  have unchanged: "addSingleWord E n w off = n" if "map_of n ?k \<noteq> None" for n
    using that by (auto simp: addSingleWord_def iw_insert_def)
  have "map_of (addSingleWord E m' w off') ?k \<noteq> None"
    by (simp add: addSingleWord_def map_of_iw_insert)
  then have "addSingleWord E (addSingleWord E m' w off') w off = addSingleWord E m' w off'"
    by (rule unchanged)
  with unchanged [OF present] show ?thesis by simp
qed

theorem addSingleWord_key_present_witness:
  "addSingleWord plain_env (addSingleWord plain_env [] [72, 105] 7) [104, 73] 9
     = addSingleWord plain_env [] [72, 105] 7"
proof -
  have "map_of (addSingleWord plain_env [] [72, 105] 7)
          (Utf8_encode plain_env (Folding_apply plain_env [104, 73])) \<noteq> None"
    by (simp add: addSingleWord_def iw_insert_def plain_env_def toLower_def)
  from addSingleWord_key_present [OF this] show ?thesis by blast
qed

section \<open>IndexedWords::addWord\<close>

text \<open>
  A pointer into the NUL-terminated array of a wide string is modelled by the characters
  from the pointer on (the terminating NUL is implicit): \<open>wordBegin\<close> and \<open>nextChar\<close> are
  such suffixes of the headword, \<open>nextChar - wordBegin\<close> is the difference of their
  lengths, and the two pointers are equal when that difference is 0.
\<close>

text \<open>\<open>i->second\<close> modified in place, for the entry \<open>i\<close> found under a key.\<close>

definition iw_update :: "bytes \<Rightarrow> (chain \<Rightarrow> chain) \<Rightarrow> IndexedWords \<Rightarrow> IndexedWords" where
  "iw_update k f m = map (\<lambda>(k', c). if k' = k then (k', f c) else (k', c)) m"

fun skipLeadingWhitespace :: "env \<Rightarrow> wstring \<Rightarrow> wstring" where
  "skipLeadingWhitespace E [] = []"
| "skipLeadingWhitespace E (c # cs) =
     (if c \<noteq> 0 \<and> isWhitespace E c then skipLeadingWhitespace E cs else c # cs)"

primrec skipTrailingWhitespace :: "env \<Rightarrow> wstring \<Rightarrow> nat \<Rightarrow> nat" where
  "skipTrailingWhitespace E wordBegin 0 = 0"
| "skipTrailingWhitespace E wordBegin (Suc n) =
     (if isWhitespace E (wordBegin ! n) then skipTrailingWhitespace E wordBegin n else Suc n)"

text \<open>
  The body of the main loop between its two skipping loops (``Insert this word''):
  the folded suffix is inserted as a key with an empty chain unless the key is there, and
  the link is appended under the middle-match cap.
\<close>

definition insertToken ::
  "env \<Rightarrow> wstring \<Rightarrow> nat \<Rightarrow> 32 word \<Rightarrow> wstring \<Rightarrow> IndexedWords \<Rightarrow> IndexedWords" where
  "insertToken E wordBegin wordSize off nextChar m =
     (let folded = Folding_apply E (takeWhile (\<lambda>c. c \<noteq> 0) nextChar);
          key = Utf8_encode E folded;
          m1 = iw_insert key [] m;
          consumed = length wordBegin - length nextChar
      in if length (chain_of m1 key) < 1024 \<or> consumed = 0
         then iw_update key
                (\<lambda>c. c @ [\<lparr>word = Utf8_encode E (take (wordSize - consumed) nextChar),
                             articleOffset = off,
                             prefix = Utf8_encode E (take consumed wordBegin)\<rparr>]) m1
         else m1)"

text \<open>
  The main loop: \<open>addWord_skip\<close> is the loop that skips whitespace and punctuation and
  then inserts, \<open>addWord_token\<close> the loop that skips the rest of the token.
\<close>

fun addWord_skip :: "env \<Rightarrow> wstring \<Rightarrow> nat \<Rightarrow> 32 word \<Rightarrow> wstring \<Rightarrow> IndexedWords \<Rightarrow> IndexedWords"
  and addWord_token :: "env \<Rightarrow> wstring \<Rightarrow> nat \<Rightarrow> 32 word \<Rightarrow> wstring \<Rightarrow> IndexedWords \<Rightarrow> IndexedWords"
where
  "addWord_skip E wb ws off [] m = m"
| "addWord_skip E wb ws off (c # cs) m =
     (if c = 0 then m
      else if \<not> isWhitespace E c \<and> \<not> isPunct E c
      then addWord_token E wb ws off cs (insertToken E wb ws off (c # cs) m)
      else addWord_skip E wb ws off cs m)"
| "addWord_token E wb ws off [] m = m"
| "addWord_token E wb ws off (c # cs) m =
     (if c = 0 then m
      else if isWhitespace E c \<or> isPunct E c
      then addWord_skip E wb ws off (c # cs) m
      else addWord_token E wb ws off cs m)"

definition addWord :: "env \<Rightarrow> IndexedWords \<Rightarrow> wstring \<Rightarrow> 32 word \<Rightarrow> IndexedWords" where
  "addWord E m w off =
     (let wordBegin = skipLeadingWhitespace E w;
          wordSize = skipTrailingWhitespace E wordBegin (length wordBegin)
      in addWord_skip E wordBegin wordSize off wordBegin m)"


section \<open>Properties of addWord\<close>

lemma map_of_iw_update:
  "map_of (iw_update k f m) k' = (if k' = k then map_option f (map_of m k) else map_of m k')"
  by (induction m) (auto simp: iw_update_def)

lemma chain_of_iw_insert_Nil: "chain_of (iw_insert k [] m) k' = chain_of m k'"
  by (simp add: chain_of_def map_of_iw_insert)

lemma map_of_iw_insert_same: "map_of (iw_insert k v m) k \<noteq> None"
  by (simp add: map_of_iw_insert)

lemma chain_of_iw_update_insert:
  "chain_of (iw_update k f (iw_insert k [] m)) k' =
     (if k' = k then f (chain_of m k) else chain_of m k')"
  by (auto simp: chain_of_def map_of_iw_update map_of_iw_insert split: option.splits)

lemma chain_of_insertToken:
  "chain_of (insertToken E wb ws off nc m) k =
     (let key = Utf8_encode E (Folding_apply E (takeWhile (\<lambda>c. c \<noteq> 0) nc))
      in if k = key \<and> (length (chain_of m key) < 1024 \<or> length wb - length nc = 0)
         then chain_of m key @
           [\<lparr>word = Utf8_encode E (take (ws - (length wb - length nc)) nc),
             articleOffset = off,
             prefix = Utf8_encode E (take (length wb - length nc) wb)\<rparr>]
         else chain_of m k)"
  by (simp add: insertToken_def Let_def chain_of_iw_update_insert chain_of_iw_insert_Nil)

text \<open>
  The cap as an invariant of the map: every link beyond the first 1024 of a chain has the
  prefix of a whole-headword insertion (the encoding of the empty string).
\<close>

definition chain_cap :: "env \<Rightarrow> IndexedWords \<Rightarrow> bool" where
  "chain_cap E m =
     (\<forall>k i. 1024 \<le> i \<and> i < length (chain_of m k) \<longrightarrow>
        prefix (chain_of m k ! i) = Utf8_encode E [])"

lemma chain_cap_insertToken:
  "chain_cap E m \<Longrightarrow> chain_cap E (insertToken E wb ws off nc m)"
  unfolding chain_cap_def chain_of_insertToken Let_def
  by (auto simp: nth_append)

lemma set_chain_of_insertToken:
  "set (chain_of m k) \<subseteq> set (chain_of (insertToken E wb ws off nc m) k)"
  by (auto simp: chain_of_insertToken Let_def)

lemma addWord_loop_cap:
  "chain_cap E m \<Longrightarrow> chain_cap E (addWord_skip E wb ws off nc m)"
  "chain_cap E m \<Longrightarrow> chain_cap E (addWord_token E wb ws off nc m)"
  by (induction E wb ws off nc m and E wb ws off nc m rule: addWord_skip_addWord_token.induct)
    (auto simp: chain_cap_insertToken)

lemma addWord_loop_mono:
  "set (chain_of m k) \<subseteq> set (chain_of (addWord_skip E wb ws off nc m) k)"
  "set (chain_of m k) \<subseteq> set (chain_of (addWord_token E wb ws off nc m) k)"
proof (induction E wb ws off nc m and E wb ws off nc m rule: addWord_skip_addWord_token.induct)
  case (2 E wb ws off c cs m)
  then show ?case
    using set_chain_of_insertToken [of m k E wb ws off "c # cs"] by auto
qed auto

lemma skipLeadingWhitespace_head:
  "skipLeadingWhitespace E w = c # cs \<Longrightarrow> c \<noteq> 0 \<Longrightarrow> \<not> isWhitespace E c"
  by (induction w) (auto split: if_splits)

text \<open>
  The token boundaries as the specification words them: walking the characters of the
  stripped headword from left to right up to its end (the first NUL), a token starts at
  each character that is neither whitespace nor punctuation and that is the first
  character or follows whitespace or punctuation. \<open>tokenStarts\<close> lists their positions.
\<close>

definition separator :: "env \<Rightarrow> wchar \<Rightarrow> bool" where
  "separator E c = (isWhitespace E c \<or> isPunct E c)"

definition tokenStart :: "env \<Rightarrow> wstring \<Rightarrow> nat \<Rightarrow> bool" where
  "tokenStart E wb i =
     (\<not> separator E (wb ! i) \<and> (i = 0 \<or> separator E (wb ! (i - 1))))"

definition tokenStarts :: "env \<Rightarrow> wstring \<Rightarrow> nat list" where
  "tokenStarts E wb =
     filter (tokenStart E wb) [0..<length (takeWhile (\<lambda>c. c \<noteq> 0) wb)]"

lemma drop_at_end:
  assumes "j = length (takeWhile (\<lambda>c. c \<noteq> 0) wb)"
  shows "drop j wb = [] \<or> (\<exists>cs. drop j wb = 0 # cs)"
proof (cases "j < length wb")
  case True
  then have "\<not> (wb ! j \<noteq> 0)"
    unfolding assms by (rule nth_length_takeWhile)
  with True show ?thesis
    by (simp add: Cons_nth_drop_Suc [symmetric])
next
  case False
  then show ?thesis by simp
qed

lemma addWord_loops_fold:
  "n = length (takeWhile (\<lambda>c. c \<noteq> 0) wb) \<Longrightarrow> j \<le> n \<Longrightarrow> k = n - j \<Longrightarrow>
     (j = 0 \<or> separator E (wb ! (j - 1)) \<or> separator E (wb ! j) \<longrightarrow>
        addWord_skip E wb ws off (drop j wb) m
          = fold (\<lambda>i. insertToken E wb ws off (drop i wb)) (filter (tokenStart E wb) [j..<n]) m) \<and>
     (0 < j \<and> \<not> separator E (wb ! (j - 1)) \<longrightarrow>
        addWord_token E wb ws off (drop j wb) m
          = fold (\<lambda>i. insertToken E wb ws off (drop i wb)) (filter (tokenStart E wb) [j..<n]) m)"
proof (induction k arbitrary: j m)
  case 0
  then have j: "j = length (takeWhile (\<lambda>c. c \<noteq> 0) wb)" by simp
  from drop_at_end [OF this] 0 show ?case by auto
next
  case (Suc k)
  then have jn: "j < n" and k: "k = n - Suc j" and sn: "Suc j \<le> n" by simp_all
  have "n \<le> length wb"
    unfolding Suc.prems(1) by (rule length_takeWhile_le)
  with jn have jl: "j < length wb" by simp
  then have d: "drop j wb = wb ! j # drop (Suc j) wb"
    by (rule Cons_nth_drop_Suc [symmetric])
  have nz: "wb ! j \<noteq> 0"
  proof -
    have "wb ! j \<in> set (takeWhile (\<lambda>c. c \<noteq> 0) wb)"
      using jn unfolding Suc.prems(1) by (metis nth_mem takeWhile_nth)
    then show ?thesis by (auto dest: set_takeWhileD)
  qed
  have up: "[j..<n] = j # [Suc j..<n]"
    using jn by (rule upt_conv_Cons)
  note IH = Suc.IH [OF Suc.prems(1) sn k]
  show ?case
  proof (cases "separator E (wb ! j)")
    case True
    then have ns: "\<not> tokenStart E wb j" by (simp add: tokenStart_def)
    have sk: "addWord_skip E wb ws off (drop j wb) m
        = addWord_skip E wb ws off (drop (Suc j) wb) m"
      unfolding d using nz True by (auto simp: separator_def)
    have "addWord_token E wb ws off (wb ! j # drop (Suc j) wb) m
        = addWord_skip E wb ws off (wb ! j # drop (Suc j) wb) m"
      using nz True by (auto simp: separator_def)
    then have tk: "addWord_token E wb ws off (drop j wb) m
        = addWord_skip E wb ws off (drop j wb) m"
      by (simp only: d [symmetric])
    have "addWord_skip E wb ws off (drop (Suc j) wb) m
        = fold (\<lambda>i. insertToken E wb ws off (drop i wb)) (filter (tokenStart E wb) [Suc j..<n]) m"
      using IH [of m] True by simp
    with sk tk ns show ?thesis by (simp add: up)
  next
    case False
    have tk: "addWord_token E wb ws off (drop j wb) m
        = addWord_token E wb ws off (drop (Suc j) wb) m"
      unfolding d using nz False by (auto simp: separator_def)
    have "addWord_skip E wb ws off (wb ! j # drop (Suc j) wb) m
        = addWord_token E wb ws off (drop (Suc j) wb)
            (insertToken E wb ws off (wb ! j # drop (Suc j) wb) m)"
      using nz False by (auto simp: separator_def)
    then have sk: "addWord_skip E wb ws off (drop j wb) m
        = addWord_token E wb ws off (drop (Suc j) wb) (insertToken E wb ws off (drop j wb) m)"
      by (simp only: d [symmetric])
    have rec: "addWord_token E wb ws off (drop (Suc j) wb) m'
        = fold (\<lambda>i. insertToken E wb ws off (drop i wb)) (filter (tokenStart E wb) [Suc j..<n]) m'"
      for m'
      using IH [of m'] False by simp
    show ?thesis
    proof (intro conjI impI)
      assume "j = 0 \<or> separator E (wb ! (j - 1)) \<or> separator E (wb ! j)"
      with False have "tokenStart E wb j" by (auto simp: tokenStart_def)
      then show "addWord_skip E wb ws off (drop j wb) m
          = fold (\<lambda>i. insertToken E wb ws off (drop i wb)) (filter (tokenStart E wb) [j..<n]) m"
        by (simp add: up sk rec)
    next
      assume "0 < j \<and> \<not> separator E (wb ! (j - 1))"
      then have "\<not> tokenStart E wb j" by (auto simp: tokenStart_def)
      then show "addWord_token E wb ws off (drop j wb) m
          = fold (\<lambda>i. insertToken E wb ws off (drop i wb)) (filter (tokenStart E wb) [j..<n]) m"
        by (simp add: up tk rec)
    qed
  qed
qed

lemma addWord_fold:
  "addWord E m w off =
     (let wb = skipLeadingWhitespace E w;
          ws = skipTrailingWhitespace E wb (length wb)
      in fold (\<lambda>i. insertToken E wb ws off (drop i wb)) (tokenStarts E wb) m)"
proof -
  let ?wb = "skipLeadingWhitespace E w"
  let ?ws = "skipTrailingWhitespace E ?wb (length ?wb)"
  from addWord_loops_fold [OF refl le0 refl, where wb = ?wb and E = E and ws = ?ws and off = off and m = m]
  have "addWord_skip E ?wb ?ws off ?wb m
      = fold (\<lambda>i. insertToken E ?wb ?ws off (drop i ?wb)) (tokenStarts E ?wb) m"
    by (simp add: tokenStarts_def)
  then show ?thesis by (simp add: addWord_def Let_def)
qed

text \<open>
  C6. \<open>addWord\<close> visits the token boundaries of the stripped headword \<open>wb\<close> from left
  to right and does at each of them, and nowhere else, the insertion for the suffix that
  starts there. This insertion, at the position \<open>i\<close> and on the map \<open>m'\<close> reached so far,
  appends the link of the suffix to the chain of the suffix's folded key if and only if
  that chain has fewer than 1024 entries or the suffix begins at the first character
  (\<open>i = 0\<close>); otherwise the chain stays as it is, and the chains of all other keys stay
  as they are. The whole-headword link of a headword whose first non-whitespace
  character starts a token is in its chain after \<open>addWord\<close>, whatever the chain's size
  was. And no call of \<open>addWord\<close> puts a middle-match link beyond the 1024th place of a
  chain.
\<close>

theorem addWord_chain_cap:
  "wb = skipLeadingWhitespace E w \<Longrightarrow> ws = skipTrailingWhitespace E wb (length wb) \<Longrightarrow>
   addWord E m w off = fold (\<lambda>i. insertToken E wb ws off (drop i wb)) (tokenStarts E wb) m \<and>
   (i \<le> length wb \<longrightarrow>
      chain_of (insertToken E wb ws off (drop i wb) m') k
        = (if k = Utf8_encode E (Folding_apply E (takeWhile (\<lambda>c. c \<noteq> 0) (drop i wb))) \<and>
              (length (chain_of m' k) < 1024 \<or> i = 0)
           then chain_of m' k @
                [\<lparr>word = Utf8_encode E (take (ws - i) (drop i wb)),
                  articleOffset = off,
                  prefix = Utf8_encode E (take i wb)\<rparr>]
           else chain_of m' k)) \<and>
   (wb = c # cs \<and> c \<noteq> 0 \<and> \<not> isPunct E c \<longrightarrow>
      \<lparr>word = Utf8_encode E (take ws wb), articleOffset = off, prefix = Utf8_encode E []\<rparr>
      \<in> set (chain_of (addWord E m w off)
                (Utf8_encode E (Folding_apply E (takeWhile (\<lambda>c. c \<noteq> 0) wb))))) \<and>
   (chain_cap E m \<longrightarrow> chain_cap E (addWord E m w off))"
proof (intro conjI impI)
  assume wb: "wb = skipLeadingWhitespace E w" and ws: "ws = skipTrailingWhitespace E wb (length wb)"
  show "addWord E m w off = fold (\<lambda>i. insertToken E wb ws off (drop i wb)) (tokenStarts E wb) m"
    unfolding wb ws [unfolded wb] using addWord_fold [of E m w off] by (simp add: Let_def)
next
  assume "i \<le> length wb"
  then have "length wb - length (drop i wb) = i" by simp
  then show "chain_of (insertToken E wb ws off (drop i wb) m') k
        = (if k = Utf8_encode E (Folding_apply E (takeWhile (\<lambda>c. c \<noteq> 0) (drop i wb))) \<and>
              (length (chain_of m' k) < 1024 \<or> i = 0)
           then chain_of m' k @
                [\<lparr>word = Utf8_encode E (take (ws - i) (drop i wb)),
                  articleOffset = off,
                  prefix = Utf8_encode E (take i wb)\<rparr>]
           else chain_of m' k)"
    by (simp add: chain_of_insertToken Let_def)
next
  assume "chain_cap E m"
  then show "chain_cap E (addWord E m w off)"
    by (simp add: addWord_def Let_def addWord_loop_cap)
next
  assume wb: "wb = skipLeadingWhitespace E w" and ws: "ws = skipTrailingWhitespace E wb (length wb)"
    and h: "wb = c # cs \<and> c \<noteq> 0 \<and> \<not> isPunct E c"
  let ?key = "Utf8_encode E (Folding_apply E (takeWhile (\<lambda>c. c \<noteq> 0) wb))"
  let ?link = "\<lparr>word = Utf8_encode E (take ws wb), articleOffset = off, prefix = Utf8_encode E []\<rparr>"
  from h wb have nws: "\<not> isWhitespace E c"
    using skipLeadingWhitespace_head [of E w c cs] by simp
  have step: "addWord E m w off = addWord_token E wb ws off cs (insertToken E wb ws off wb m)"
    using h nws wb ws by (simp add: addWord_def Let_def)
  have "?link \<in> set (chain_of (insertToken E wb ws off wb m) ?key)"
    by (simp add: chain_of_insertToken Let_def)
  then show "?link \<in> set (chain_of (addWord E m w off) ?key)"
    unfolding step using addWord_loop_mono(2) by blast
qed

theorem addWord_chain_cap_witness:
  "chain_of (addWord plain_env
       [([120, 32, 121], replicate 1024 \<lparr>word = [122], articleOffset = 0, prefix = []\<rparr>),
        ([121], replicate 1024 \<lparr>word = [122], articleOffset = 0, prefix = []\<rparr>)]
       [32, 120, 32, 121] 7) [120, 32, 121]
     = replicate 1024 \<lparr>word = [122], articleOffset = 0, prefix = []\<rparr>
         @ [\<lparr>word = [120, 32, 121], articleOffset = 7, prefix = []\<rparr>] \<and>
   chain_of (addWord plain_env
       [([120, 32, 121], replicate 1024 \<lparr>word = [122], articleOffset = 0, prefix = []\<rparr>),
        ([121], replicate 1024 \<lparr>word = [122], articleOffset = 0, prefix = []\<rparr>)]
       [32, 120, 32, 121] 7) [121]
     = replicate 1024 \<lparr>word = [122], articleOffset = 0, prefix = []\<rparr> \<and>
   chain_of (addWord plain_env [] [32, 120, 32, 121] 7) [121]
     = [\<lparr>word = [121], articleOffset = 7, prefix = [120, 32]\<rparr>]"
proof -
  let ?l = "\<lparr>word = [122], articleOffset = 0, prefix = []\<rparr> :: WordArticleLink"
  let ?m = "[([120, 32, 121], replicate 1024 ?l), ([121], replicate 1024 ?l)] :: IndexedWords"
  let ?w = "[32, 120, 32, 121] :: wstring"
  let ?wb = "[120, 32, 121] :: wstring"
  have wb: "?wb = skipLeadingWhitespace plain_env ?w"
    by (simp add: plain_env_def)
  have ws: "3 = skipTrailingWhitespace plain_env ?wb (length ?wb)"
    by (simp add: plain_env_def)
  have ts: "tokenStarts plain_env ?wb = [0, 2]"
    by (simp add: tokenStarts_def tokenStart_def separator_def plain_env_def upt_rec_numeral)
  note T = addWord_chain_cap [OF wb ws]
  have k0: "Utf8_encode plain_env (Folding_apply plain_env (takeWhile (\<lambda>c. c \<noteq> 0) (drop 0 ?wb)))
      = [120, 32, 121]"
    by (simp add: plain_env_def toLower_def)
  have k2: "Utf8_encode plain_env (Folding_apply plain_env (takeWhile (\<lambda>c. c \<noteq> 0) (drop 2 ?wb)))
      = [121]"
    by (simp add: plain_env_def toLower_def)
  have e0: "Utf8_encode plain_env (take (3 - 0) (drop 0 ?wb)) = [120, 32, 121]"
    "Utf8_encode plain_env (take 0 ?wb) = []"
    by (simp_all add: plain_env_def)
  have e2: "Utf8_encode plain_env (take (3 - 2) (drop 2 ?wb)) = [121]"
    "Utf8_encode plain_env (take 2 ?wb) = [120, 32]"
    by (simp_all add: plain_env_def)
  have fold_eq: "addWord plain_env m ?w 7
      = insertToken plain_env ?wb 3 7 (drop 2 ?wb) (insertToken plain_env ?wb 3 7 (drop 0 ?wb) m)"
    for m
    using T [where m = m and off = 7] by (simp add: ts)
  have s0: "chain_of (insertToken plain_env ?wb 3 7 (drop 0 ?wb) m') k
      = (if k = [120, 32, 121]
         then chain_of m' k @ [\<lparr>word = [120, 32, 121], articleOffset = 7, prefix = []\<rparr>]
         else chain_of m' k)" for m' k
    using T [where i = 0 and m' = m' and k = k and off = 7] unfolding k0 e0 by simp
  have s2: "chain_of (insertToken plain_env ?wb 3 7 (drop 2 ?wb) m') k
      = (if k = [121] \<and> length (chain_of m' k) < 1024
         then chain_of m' k @ [\<lparr>word = [121], articleOffset = 7, prefix = [120, 32]\<rparr>]
         else chain_of m' k)" for m' k
    using T [where i = 2 and m' = m' and k = k and off = 7] unfolding k2 e2 by simp
  have c1: "chain_of ?m [120, 32, 121] = replicate 1024 ?l"
    and c2: "chain_of ?m [121] = replicate 1024 ?l"
    and c3: "chain_of [] [121 :: byte] = []"
    by (simp_all add: chain_of_def)
  show ?thesis
    unfolding fold_eq s2 s0 c1 c2 c3 by simp
qed

section \<open>Files and 32-bit fields\<close>

text \<open>
  Modelled from the spec: the external file abstraction (\<open>File::Class\<close>: \<open>seek\<close>,
  \<open>tell\<close>, \<open>read\<close>, \<open>write\<close>), as a byte sequence with a cursor. Writing overwrites
  from the cursor on and extends the file; a read that runs past the end of the file fails.
  All integers on disk are 32-bit little-endian unsigned.
\<close>

datatype error =
  IndexWasNotOpened | FailedToDecompressNode | CorruptedChainData | CantDecodeUtf8
  | ReadError

record idx_file =
  fdata :: bytes
  fpos :: nat

definition put32 :: "nat \<Rightarrow> bytes" where
  "put32 n = [of_nat n, of_nat (n div 256), of_nat (n div 65536), of_nat (n div 16777216)]"

definition get32 :: "bytes \<Rightarrow> nat" where
  "get32 bs = foldr (\<lambda>b n. unat b + 256 * n) bs 0"

definition seek :: "idx_file \<Rightarrow> nat \<Rightarrow> idx_file" where
  "seek f off = f\<lparr>fpos := off\<rparr>"

definition tell :: "idx_file \<Rightarrow> nat" where
  "tell f = fpos f"

definition fwrite :: "idx_file \<Rightarrow> bytes \<Rightarrow> idx_file" where
  "fwrite f bs =
     \<lparr>fdata = take (fpos f) (fdata f @ replicate (fpos f - length (fdata f)) 0) @ bs
               @ drop (fpos f + length bs) (fdata f),
      fpos = fpos f + length bs\<rparr>"

definition fread :: "idx_file \<Rightarrow> nat \<Rightarrow> error + (bytes \<times> idx_file)" where
  "fread f n =
     (if fpos f + n \<le> length (fdata f)
      then Inr (take n (drop (fpos f) (fdata f)), f\<lparr>fpos := fpos f + n\<rparr>)
      else Inl ReadError)"

definition fread32 :: "idx_file \<Rightarrow> error + (nat \<times> idx_file)" where
  "fread32 f = (case fread f 4 of Inl e \<Rightarrow> Inl e | Inr (bs, f') \<Rightarrow> Inr (get32 bs, f'))"

section \<open>The tree builder\<close>

definition serializeLink :: "WordArticleLink \<Rightarrow> bytes" where
  "serializeLink l = word l @ [0] @ prefix l @ [0] @ put32 (unat (articleOffset l))"

definition serializeChain :: "chain \<Rightarrow> bytes" where
  "serializeChain c =
     (let recs = concat (map serializeLink c) in put32 (length recs) @ recs)"

definition leafData :: "nat \<Rightarrow> IndexedWords \<Rightarrow> bytes" where
  "leafData indexSize nextIndex =
     put32 indexSize @ concat (map (\<lambda>(k, c). serializeChain c) (take indexSize nextIndex))"

text \<open>\<open>memcpy\<close> of a 32-bit value into the node buffer at a byte position.\<close>

definition poke32 :: "bytes \<Rightarrow> nat \<Rightarrow> nat \<Rightarrow> bytes" where
  "poke32 buf p v = take p buf @ put32 v @ drop (p + 4) buf"

text \<open>
  What \<open>buildBtreeNode\<close> threads through its calls: the file, the iterator \<open>nextIndex\<close>
  (the entries from the iterator's position to the end of the map) and
  \<open>lastLeafLinkOffset\<close>.
\<close>

record bstate =
  bfile :: idx_file
  nextIndex :: IndexedWords
  lastLeafLinkOffset :: nat

text \<open>\<open>nextIndex->first\<close>.\<close>

definition currentKey :: "IndexedWords \<Rightarrow> bytes" where
  "currentKey it = (case it of [] \<Rightarrow> [] | (k, c) # rest \<Rightarrow> k)"

text \<open>
  The tail of \<open>buildBtreeNode\<close> (``Save the result''): the node is compressed and
  written at the cursor; a leaf gets its forward link, and the previous leaf's link is
  patched to point to it.
\<close>

definition saveNode :: "env \<Rightarrow> bool \<Rightarrow> bytes \<Rightarrow> bstate \<Rightarrow> nat \<times> bstate" where
  "saveNode E isLeaf uncompressedData st =
     (let compressedData = compress E uncompressedData;
          offset = u32 (tell (bfile st));
          f1 = fwrite (bfile st) (put32 (length uncompressedData));
          f2 = fwrite f1 (put32 (length compressedData));
          f3 = fwrite f2 compressedData
      in if isLeaf
         then (let f4 = fwrite f3 (put32 0);
                   here = u32 (tell f4);
                   f5 = (if lastLeafLinkOffset st \<noteq> 0
                         then seek (fwrite (seek f4 (lastLeafLinkOffset st)) (put32 offset)) here
                         else f4)
               in (offset, st\<lparr>bfile := f5, lastLeafLinkOffset := u32 (here - 4)\<rparr>))
         else (offset, st\<lparr>bfile := f3\<rparr>))"

text \<open>
  \<open>buildBtreeNode\<close> and the loop over its children (\<open>buildChildren\<close>, with the loop
  variables \<open>x\<close> and \<open>prevEntry\<close> and the node buffer; its last step builds the
  rightmost child). Counts of entries are below \<open>2 ^ 32\<close> (the map is held in memory), so
  the conversions between \<open>size_t\<close>, \<open>unsigned\<close> and \<open>uint64_t\<close> are exact. With
  \<open>maxElements = 0\<close> the rightmost child of a node is the node itself and the source
  recurses forever: the model returns \<open>None\<close> there. Dereferencing the iterator at the
  end of the map is undefined in the source; there the model reads no entry and the
  empty key (\<open>buildIndex\<close> never gets there).
\<close>

function buildBtreeNode :: "env \<Rightarrow> nat \<Rightarrow> nat \<Rightarrow> bstate \<Rightarrow> (nat \<times> bstate) option"
  and buildChildren ::
    "env \<Rightarrow> nat \<Rightarrow> nat \<Rightarrow> nat \<Rightarrow> nat \<Rightarrow> bytes \<Rightarrow> bstate \<Rightarrow> (bytes \<times> bstate) option"
where
  "buildBtreeNode E maxElements indexSize st =
     (if indexSize \<le> maxElements
      then Some (saveNode E True (leafData indexSize (nextIndex st))
                   (st\<lparr>nextIndex := drop indexSize (nextIndex st)\<rparr>))
      else (case buildChildren E maxElements indexSize 0 0
                   (put32 0xFFFFFFFF @ replicate ((maxElements + 1) * 4) 0) st of
              None \<Rightarrow> None
            | Some (uncompressedData, st') \<Rightarrow> Some (saveNode E False uncompressedData st')))"
| "buildChildren E maxElements indexSize x prevEntry uncompressedData st =
     (if x < maxElements
      then (let curEntry = indexSize * (x + 1) div (maxElements + 1) in
            case buildBtreeNode E maxElements (curEntry - prevEntry) st of
              None \<Rightarrow> None
            | Some (offset, st') \<Rightarrow>
                buildChildren E maxElements indexSize (x + 1) curEntry
                  (poke32 uncompressedData (4 + x * 4) offset @ currentKey (nextIndex st') @ [0])
                  st')
      else if prevEntry = 0 then None
      else (case buildBtreeNode E maxElements (indexSize - prevEntry) st of
              None \<Rightarrow> None
            | Some (offset, st') \<Rightarrow>
                Some (poke32 uncompressedData (4 + maxElements * 4) offset, st')))"
  by pat_completeness auto
termination
proof (relation "inv_image (less_than <*lex*> less_than <*lex*> less_than)
    (\<lambda>a. case a of
       Inl (E, F, n, st) \<Rightarrow> (if n \<le> F then (0, 0, 0) else (n, 2, 0))
     | Inr (E, F, n, x, prevEntry, d, st) \<Rightarrow> (n, 1, F - x))")
  show "wf (inv_image (less_than <*lex*> less_than <*lex*> less_than)
    (\<lambda>a. case a of
       Inl (E, F, n, st) \<Rightarrow> (if n \<le> F then (0::nat, 0::nat, 0::nat) else (n, 2, 0))
     | Inr (E, F, n, x, prevEntry, d, st) \<Rightarrow> (n, 1, F - x)))"
    by (intro wf_inv_image wf_lex_prod wf_less_than)
next
  fix E :: env and F n :: nat and st :: bstate
  assume "\<not> n \<le> F"
  then show "(Inr (E, F, n, 0, 0, put32 0xFFFFFFFF @ replicate ((F + 1) * 4) 0, st), Inl (E, F, n, st))
    \<in> inv_image (less_than <*lex*> less_than <*lex*> less_than)
    (\<lambda>a. case a of
       Inl (E, F, n, st) \<Rightarrow> (if n \<le> F then (0, 0, 0) else (n, 2, 0))
     | Inr (E, F, n, x, prevEntry, d, st) \<Rightarrow> (n, 1, F - x))"
    by simp
next
  fix E :: env and F n x prevEntry :: nat and d :: bytes and st :: bstate and curEntry :: nat
  assume a: "x < F" "curEntry = n * (x + 1) div (F + 1)"
  have "n * (x + 1) div (F + 1) - prevEntry < n" if "0 < n"
  proof -
    have "x + 1 \<le> F" using a by simp
    then have "n * (x + 1) \<le> n * F" by (rule mult_le_mono2)
    then have "n * (x + 1) div (F + 1) \<le> n * F div (F + 1)" by (rule div_le_mono)
    also have "n * F div (F + 1) < n"
      using that by (simp add: div_less_iff_less_mult algebra_simps)
    finally show ?thesis by simp
  qed
  then show "(Inl (E, F, curEntry - prevEntry, st), Inr (E, F, n, x, prevEntry, d, st))
    \<in> inv_image (less_than <*lex*> less_than <*lex*> less_than)
    (\<lambda>a. case a of
       Inl (E, F, n, st) \<Rightarrow> (if n \<le> F then (0, 0, 0) else (n, 2, 0))
     | Inr (E, F, n, x, prevEntry, d, st) \<Rightarrow> (n, 1, F - x))"
    using a by (cases "n = 0") auto
next
  fix E :: env and F n x prevEntry :: nat and d :: bytes and st :: bstate and curEntry :: nat 
    and x2 :: "nat \<times> bstate" and offset st'
  assume "x < F"
  then show "(Inr (E, F, n, x + 1, curEntry, poke32 d (4 + x * 4) offset @ currentKey (nextIndex st') @ [0], st'),
      Inr (E, F, n, x, prevEntry, d, st))
    \<in> inv_image (less_than <*lex*> less_than <*lex*> less_than)
    (\<lambda>a. case a of
       Inl (E, F, n, st) \<Rightarrow> (if n \<le> F then (0, 0, 0) else (n, 2, 0))
     | Inr (E, F, n, x, prevEntry, d, st) \<Rightarrow> (n, 1, F - x))"
    by simp
next
  fix E :: env and F n x prevEntry :: nat and d :: bytes and st :: bstate
  assume "prevEntry \<noteq> 0"
  then show "(Inl (E, F, n - prevEntry, st), Inr (E, F, n, x, prevEntry, d, st))
    \<in> inv_image (less_than <*lex*> less_than <*lex*> less_than)
    (\<lambda>a. case a of
       Inl (E, F, n, st) \<Rightarrow> (if n \<le> F then (0, 0, 0) else (n, 2, 0))
     | Inr (E, F, n, x, prevEntry, d, st) \<Rightarrow> (n, 1, F - x))"
    by (cases "n = 0") auto
qed

declare buildBtreeNode.simps [simp del] buildChildren.simps [simp del]

record IndexInfo =
  btreeMaxElements :: nat
  info_rootOffset :: nat

text \<open>
  \<open>buildIndex\<close>: the loop that skips empty words moves the iterator and decrements
  \<open>indexSize\<close> together, so \<open>indexSize\<close> is the number of entries from the iterator on.
\<close>

fun skipEmptyWords :: "IndexedWords \<Rightarrow> IndexedWords" where
  "skipEmptyWords [] = []"
| "skipEmptyWords ((k, c) # rest) = (if k = [] then skipEmptyWords rest else (k, c) # rest)"

text \<open>
  \<open>static_cast<size_t>( sqrt( static_cast<double>( indexSize ) ) )\<close>: the integer part of
  the square root, found by counting up (the conversion to \<open>double\<close> and the rounding of
  \<open>sqrt\<close> lose nothing on counts of entries).
\<close>

function sqrt_up :: "nat \<Rightarrow> nat \<Rightarrow> nat" where
  "sqrt_up n k = (if (k + 1) * (k + 1) \<le> n then sqrt_up n (k + 1) else k)"
  by pat_completeness auto
termination
  by (relation "measure (\<lambda>(n, k). n - k * k)") auto

declare sqrt_up.simps [simp del]

definition floor_sqrt :: "nat \<Rightarrow> nat" where
  "floor_sqrt n = sqrt_up n 0"

definition BtreeMinElements :: nat where "BtreeMinElements = 64"
definition BtreeMaxElements :: nat where "BtreeMaxElements = 4096"

definition chooseMaxElements :: "nat \<Rightarrow> nat" where
  "chooseMaxElements indexSize =
     (let btreeMaxElements = floor_sqrt indexSize + 1
      in if btreeMaxElements < BtreeMinElements then BtreeMinElements
         else if btreeMaxElements > BtreeMaxElements then BtreeMaxElements
         else btreeMaxElements)"

definition buildIndex :: "env \<Rightarrow> IndexedWords \<Rightarrow> idx_file \<Rightarrow> (IndexInfo \<times> idx_file) option" where
  "buildIndex E indexedWords f =
     (let nextIndex = skipEmptyWords indexedWords;
          indexSize = length nextIndex;
          btreeMaxElements = chooseMaxElements indexSize
      in case buildBtreeNode E btreeMaxElements indexSize
                \<lparr>bfile = f, nextIndex = nextIndex, lastLeafLinkOffset = 0\<rparr> of
           None \<Rightarrow> None
         | Some (rootOffset, st) \<Rightarrow>
             Some (\<lparr>btreeMaxElements = btreeMaxElements, info_rootOffset = rootOffset\<rparr>,
                   bfile st))"

section \<open>The fanout chosen by buildIndex\<close>

lemma sqrt_up_spec:
  "k * k \<le> n \<Longrightarrow> sqrt_up n k * sqrt_up n k \<le> n \<and> n < (sqrt_up n k + 1) * (sqrt_up n k + 1)"
proof (induction n k rule: sqrt_up.induct)
  case (1 n k)
  show ?case
  proof (cases "(k + 1) * (k + 1) \<le> n")
    case True
    then have "sqrt_up n k = sqrt_up n (k + 1)"
      by (subst sqrt_up.simps) simp
    with 1(1) [OF True True] show ?thesis by simp
  next
    case False
    then have "sqrt_up n k = k"
      by (subst sqrt_up.simps) simp
    with False 1(2) show ?thesis by simp
  qed
qed

lemma floor_sqrt_spec:
  "floor_sqrt n * floor_sqrt n \<le> n \<and> n < (floor_sqrt n + 1) * (floor_sqrt n + 1)"
  unfolding floor_sqrt_def by (rule sqrt_up_spec) simp

lemma floor_sqrt_unique:
  assumes "r * r \<le> n" and "n < (r + 1) * (r + 1)"
  shows "floor_sqrt n = r"
proof (rule ccontr)
  assume ne: "floor_sqrt n \<noteq> r"
  let ?s = "floor_sqrt n"
  from floor_sqrt_spec [of n] have s: "?s * ?s \<le> n" "n < (?s + 1) * (?s + 1)" by simp_all
  show False
  proof (cases "?s < r")
    case True
    then have "?s + 1 \<le> r" by linarith
    then have "(?s + 1) * (?s + 1) \<le> r * r" by (intro mult_le_mono)
    with s assms show False by simp
  next
    case False
    with ne have "r + 1 \<le> ?s" by linarith
    then have "(r + 1) * (r + 1) \<le> ?s * ?s" by (intro mult_le_mono)
    with s assms show False by simp
  qed
qed

lemma floor_sqrt_real: "floor_sqrt n = nat \<lfloor>sqrt (real n)\<rfloor>"
proof -
  let ?s = "floor_sqrt n"
  from floor_sqrt_spec [of n] have s: "?s * ?s \<le> n" "n < (?s + 1) * (?s + 1)" by simp_all
  have "real (?s * ?s) \<le> real n"
    using s(1) by (simp only: of_nat_le_iff)
  then have "(real ?s)\<^sup>2 \<le> real n"
    by (simp add: power2_eq_square)
  then have lo: "real ?s \<le> sqrt (real n)"
    by (rule real_le_rsqrt)
  have "real n < real ((?s + 1) * (?s + 1))"
    using s(2) by (simp only: of_nat_less_iff)
  then have "real n < (real ?s + 1)\<^sup>2"
    by (simp add: power2_eq_square algebra_simps)
  then have hi: "sqrt (real n) < real ?s + 1"
    by (intro real_less_lsqrt) simp_all
  have "\<lfloor>sqrt (real n)\<rfloor> = int ?s"
    using lo hi by (simp add: floor_eq_iff)
  then show ?thesis by simp
qed

lemma skipEmptyWords_sorted:
  "sorted (map fst m) \<Longrightarrow> skipEmptyWords m = filter (\<lambda>(k, c). k \<noteq> []) m"
proof (induction m)
  case Nil
  then show ?case by simp
next
  case (Cons e m)
  obtain k c where e: "e = (k, c)" by (cases e)
  show ?case
  proof (cases "k = []")
    case True
    with Cons e show ?thesis by simp
  next
    case False
    have "fst x \<noteq> []" if "x \<in> set m" for x
    proof -
      from Cons.prems e that have "k \<le> fst x" by auto
      with False show ?thesis by auto
    qed
    then have "filter (\<lambda>(k, c). k \<noteq> []) m = m"
      by (intro filter_True) (fastforce split: prod.splits)
    with False e show ?thesis by simp
  qed
qed

lemma chooseMaxElements_range:
  "chooseMaxElements n = max 64 (min 4096 (floor_sqrt n + 1))"
  by (simp add: chooseMaxElements_def BtreeMinElements_def BtreeMaxElements_def Let_def)

lemma buildBtreeNode_total:
  "0 < F \<Longrightarrow> buildBtreeNode E F n st \<noteq> None"
  "0 < F \<Longrightarrow> F < n \<Longrightarrow> x < F \<or> prevEntry \<noteq> 0 \<Longrightarrow>
     buildChildren E F n x prevEntry d st \<noteq> None"
proof (induction E F n st and E F n x prevEntry d st rule: buildBtreeNode_buildChildren.induct)
  case (1 E F n st)
  show ?case
  proof (cases "n \<le> F")
    case True
    then show ?thesis by (subst buildBtreeNode.simps) simp
  next
    case False
    with 1 have "buildChildren E F n 0 0 (put32 0xFFFFFFFF @ replicate ((F + 1) * 4) 0) st \<noteq> None"
      by simp
    with False show ?thesis by (subst buildBtreeNode.simps) (auto split: prod.splits)
  qed
next
  case (2 E F n x prevEntry d st)
  show ?case
  proof (cases "x < F")
    case True
    let ?cur = "n * (x + 1) div (F + 1)"
    from 2(1) [OF True refl] 2(4) obtain offset st' where
      b: "buildBtreeNode E F (?cur - prevEntry) st = Some (offset, st')"
      by auto
    have "x + 1 < F \<or> ?cur \<noteq> 0"
    proof (cases "x + 1 < F")
      case False
      with True have "x + 1 = F" by simp
      moreover have "F + 1 \<le> n * F"
      proof -
        have "2 \<le> n" using 2(5) 2(4) by simp
        then have "2 * F \<le> n * F" by (rule mult_le_mono1)
        then show ?thesis using 2(4) by linarith
      qed
      ultimately have "1 \<le> ?cur"
        by (simp add: less_eq_div_iff_mult_less_eq)
      then show ?thesis by simp
    qed simp
    with 2(2) [OF True refl b refl 2(4) 2(5)]
    show ?thesis
      using True b by (subst buildChildren.simps) (simp add: Let_def)
  next
    case False
    with 2(6) have p: "prevEntry \<noteq> 0" by simp
    from 2(3) [OF False p 2(4)] obtain offset st' where
      "buildBtreeNode E F (n - prevEntry) st = Some (offset, st')"
      by auto
    with False p show ?thesis by (subst buildChildren.simps) simp
  qed
qed

text \<open>
  C3. \<open>buildIndex\<close> returns, and the fanout it returns is
  \<open>clamp(floor(sqrt(n)) + 1, 64, 4096)\<close>, where \<open>n\<close> is the number of entries of the map
  with a non-empty key; so it lies between 64 and 4096. For 5000 entries it is 71.
\<close>

theorem buildIndex_fanout:
  "sorted (map fst indexedWords) \<Longrightarrow>
     (\<exists>info f'. buildIndex E indexedWords f = Some (info, f') \<and>
        btreeMaxElements info =
          max 64 (min 4096
            (nat \<lfloor>sqrt (real (length (filter (\<lambda>(k, c). k \<noteq> []) indexedWords)))\<rfloor> + 1)) \<and>
        64 \<le> btreeMaxElements info \<and> btreeMaxElements info \<le> 4096) \<and>
     chooseMaxElements 5000 = 71"
proof -
  assume s: "sorted (map fst indexedWords)"
  let ?n = "length (skipEmptyWords indexedWords)"
  let ?F = "chooseMaxElements ?n"
  have F: "?F = max 64 (min 4096 (floor_sqrt ?n + 1))"
    by (rule chooseMaxElements_range)
  then have "0 < ?F" by simp
  then obtain off st where
    "buildBtreeNode E ?F ?n
       \<lparr>bfile = f, nextIndex = skipEmptyWords indexedWords, lastLeafLinkOffset = 0\<rparr> = Some (off, st)"
    using buildBtreeNode_total(1) by fastforce
  then have "buildIndex E indexedWords f
      = Some (\<lparr>btreeMaxElements = ?F, info_rootOffset = off\<rparr>, bfile st)"
    by (simp add: buildIndex_def Let_def)
  moreover have "?F = max 64 (min 4096
      (nat \<lfloor>sqrt (real (length (filter (\<lambda>(k, c). k \<noteq> []) indexedWords)))\<rfloor> + 1))"
    by (simp add: chooseMaxElements_range floor_sqrt_real skipEmptyWords_sorted [OF s])
  moreover have "64 \<le> ?F" "?F \<le> 4096"
    unfolding F by simp_all
  moreover have "chooseMaxElements 5000 = 71"
  proof -
    have "floor_sqrt 5000 = 70" by (rule floor_sqrt_unique) simp_all
    then show ?thesis by (simp add: chooseMaxElements_range)
  qed
  ultimately show ?thesis by simp
qed

theorem buildIndex_fanout_witness:
  "\<exists>info f'. buildIndex plain_env [([], []), ([97], [])] \<lparr>fdata = [], fpos = 0\<rparr> = Some (info, f') \<and>
     btreeMaxElements info = 64"
proof -
  have s: "sorted (map fst [([] :: bytes, [] :: chain), ([97], [])])"
    by simp
  have "floor_sqrt 1 = 1" by (rule floor_sqrt_unique) simp_all
  then have "max 64 (min 4096 (nat \<lfloor>sqrt (real (length (filter (\<lambda>(k, c). k \<noteq> [])
      [([] :: bytes, [] :: chain), ([97], [])])))\<rfloor> + 1)) = 64"
    unfolding floor_sqrt_real [symmetric] by simp
  with buildIndex_fanout [OF s, of plain_env "\<lparr>fdata = [], fpos = 0\<rparr>"]
  show ?thesis by auto
qed

section \<open>The tree reader\<close>

text \<open>
  A pointer into a node buffer is an index into the bytes of memory that start with the
  buffer. The source checks no bounds when it reads through such a pointer, and neither
  does the model: a NUL-terminated string runs up to the first NUL, or to the end of the
  bytes when there is none; a byte or a 32-bit value beyond the end is read as zero.
\<close>

definition cstringAt :: "bytes \<Rightarrow> nat \<Rightarrow> bytes" where
  "cstringAt buf p = takeWhile (\<lambda>b. b \<noteq> 0) (drop p buf)"

definition c_strlen :: "bytes \<Rightarrow> nat \<Rightarrow> nat" where
  "c_strlen buf p = length (cstringAt buf p)"

definition byteAt :: "bytes \<Rightarrow> nat \<Rightarrow> byte" where
  "byteAt buf i = (if i < length buf then buf ! i else 0)"

text \<open>The bytes \<open>[p, p + n)\<close> of a buffer, and the 32-bit value at a position.\<close>

definition bytesAt :: "bytes \<Rightarrow> nat \<Rightarrow> nat \<Rightarrow> bytes" where
  "bytesAt buf p n = take n (drop p buf)"

definition peek32 :: "bytes \<Rightarrow> nat \<Rightarrow> nat" where
  "peek32 buf p = get32 (bytesAt buf p 4)"

text \<open>A wide string read through a \<open>wchar const *\<close>: it ends at the first NUL.\<close>

definition wcstr :: "wstring \<Rightarrow> wstring" where
  "wcstr w = takeWhile (\<lambda>c. c \<noteq> 0) w"

text \<open>\<open>wstring::compare\<close>: negative, zero or positive.\<close>

definition compare3 :: "wstring \<Rightarrow> wstring \<Rightarrow> int" where
  "compare3 a b = (if a < b then - 1 else if a = b then 0 else 1)"

definition readNode :: "env \<Rightarrow> idx_file \<Rightarrow> nat \<Rightarrow> error + (bytes \<times> idx_file)" where
  "readNode E f offset =
     (case fread32 (seek f offset) of Inl e \<Rightarrow> Inl e
      | Inr (uncompressedSize, f1) \<Rightarrow>
     (case fread32 f1 of Inl e \<Rightarrow> Inl e
      | Inr (compressedSize, f2) \<Rightarrow>
     (case fread f2 compressedSize of Inl e \<Rightarrow> Inl e
      | Inr (compressedData, f3) \<Rightarrow>
     (case uncompress E compressedData of None \<Rightarrow> Inl FailedToDecompressNode
      | Some out \<Rightarrow>
          if length out \<noteq> uncompressedSize then Inl FailedToDecompressNode
          else Inr (out, f3)))))"

subsection \<open>Search in an internal node\<close>

function scanBack :: "bytes \<Rightarrow> nat \<Rightarrow> nat \<Rightarrow> nat" where
  "scanBack buf ptr closestString =
     (if closestString > ptr \<and> byteAt buf (closestString - 1) \<noteq> 0
      then scanBack buf ptr (closestString - 1) else closestString)"
  by pat_completeness auto
termination
  by (relation "measure (\<lambda>(buf, ptr, c). c)") auto

declare scanBack.simps [simp del]

lemma scanBack_le: "scanBack buf ptr c \<le> c"
proof (induction buf ptr c rule: scanBack.induct)
  case (1 buf ptr c)
  show ?case
  proof (cases "c > ptr \<and> byteAt buf (c - 1) \<noteq> 0")
    case True
    with 1 have "scanBack buf ptr (c - 1) \<le> c - 1" by simp
    moreover have "scanBack buf ptr c = scanBack buf ptr (c - 1)"
      using True by (subst scanBack.simps) simp
    ultimately show ?thesis by simp
  next
    case False
    then show ?thesis by (subst scanBack.simps) auto
  qed
qed

text \<open>
  The binary search over the span of zero-separated pivot strings. It returns
  \<open>closestString\<close> and \<open>compareResult\<close>. The window starts at the start of a string and
  ends at the start of one or at the end of the buffer; so, when the strings of the node
  end inside the buffer, the unsigned differences the source computes are never negative
  and are the differences of natural numbers.
\<close>

function searchPivots ::
  "env \<Rightarrow> wstring \<Rightarrow> bytes \<Rightarrow> nat \<Rightarrow> nat \<Rightarrow> nat \<Rightarrow> error + (nat \<times> int)" where
  "searchPivots E target buf ptr window windowSize =
     (let testPoint = window + windowSize div 2;
          closestString = scanBack buf ptr testPoint;
          wordSize = c_strlen buf closestString
      in case Utf8_decode E (bytesAt buf closestString wordSize) of
           None \<Rightarrow> Inl CantDecodeUtf8
         | Some w \<Rightarrow>
            (let compareResult = compare3 target (wcstr w)
             in if compareResult = 0 then Inr (closestString, compareResult)
                else if compareResult < 0
                then (if closestString - window = 0 then Inr (closestString, compareResult)
                      else searchPivots E target buf ptr window (closestString - window))
                else (if windowSize - ((closestString - window) + wordSize + 1) = 0
                      then Inr (closestString, compareResult)
                      else searchPivots E target buf ptr (closestString + wordSize + 1)
                             (windowSize - ((closestString - window) + wordSize + 1)))))"
  by pat_completeness auto
termination
proof (relation "measure (\<lambda>(E, target, buf, ptr, window, windowSize). windowSize)", goal_cases)
  case 1
  show ?case by simp
next
  case (2 E target buf ptr window windowSize testPoint closestString wordSize w compareResult)
  have "closestString \<le> window + windowSize div 2"
    unfolding 2(1,2) by (rule scanBack_le)
  with 2(3-) show ?case by auto
next
  case (3 E target buf ptr window windowSize testPoint closestString wordSize w compareResult)
  from 3(3-) show ?case by auto
qed

declare searchPivots.simps [simp del]

text \<open>
  The entry number of \<open>closestString\<close>: the strings are counted from \<open>ptr\<close> until
  \<open>closestString\<close> is met. Were it passed, the loop of the source would never end
  (\<open>None\<close>); it is not, as \<open>closestString\<close> is the start of a string.
\<close>

function countEntries :: "bytes \<Rightarrow> nat \<Rightarrow> nat \<Rightarrow> nat \<Rightarrow> nat option" where
  "countEntries buf next closestString entry =
     (if next = closestString then Some entry
      else if closestString < next then None
      else countEntries buf (next + c_strlen buf next + 1) closestString (entry + 1))"
  by pat_completeness auto
termination
  by (relation "measure (\<lambda>(buf, next, c, entry). c - next)") auto

declare countEntries.simps [simp del]

text \<open>\<open>offsets[ i ]\<close> of an internal node.\<close>

definition offsetAt :: "bytes \<Rightarrow> nat \<Rightarrow> nat" where
  "offsetAt leaf i = peek32 leaf (4 + i * 4)"

text \<open>The branch ``A node'' of the descent: the offset of the child to read next.\<close>

definition findChild :: "env \<Rightarrow> nat \<Rightarrow> wstring \<Rightarrow> bytes \<Rightarrow> nat \<Rightarrow> (error + nat) option" where
  "findChild E indexNodeSize target leaf currentNodeOffset =
     (let ptr = 4 + (indexNodeSize + 1) * 4
      in case searchPivots E target leaf ptr ptr (length leaf - ptr) of
           Inl e \<Rightarrow> Some (Inl e)
         | Inr (closestString, compareResult) \<Rightarrow>
        (case countEntries leaf ptr closestString 0 of None \<Rightarrow> None
         | Some entry \<Rightarrow>
            (let currentNodeOffset1 =
                   (if compareResult = 0 then offsetAt leaf (entry + 1) else currentNodeOffset)
             in if compareResult < 0 then Some (Inr (offsetAt leaf entry))
                else Some (Inr (offsetAt leaf (entry + 1))))))"

subsection \<open>Search in a leaf\<close>

text \<open>The array of chain pointers of a leaf with \<open>leafEntries\<close> chains.\<close>

fun chainPointers :: "bytes \<Rightarrow> nat \<Rightarrow> nat \<Rightarrow> nat list" where
  "chainPointers buf ptr 0 = []"
| "chainPointers buf ptr (Suc n) = ptr # chainPointers buf (ptr + 4 + peek32 buf ptr) n"

text \<open>
  The outcomes of the binary search in a leaf: an exact match at a chain, a chain as the
  candidate for a prefix match, or the end of the leaf (the candidate is the first chain
  of the next leaf).
\<close>

datatype leafhit = Exact nat | Candidate nat | PastEnd

function searchLeaf ::
  "env \<Rightarrow> wstring \<Rightarrow> bytes \<Rightarrow> nat list \<Rightarrow> nat \<Rightarrow> nat \<Rightarrow> error + leafhit" where
  "searchLeaf E target leaf chainOffsets window windowSize =
     (let chainToCheck = window + windowSize div 2;
          ptr = chainOffsets ! chainToCheck + 4;
          wordSize = c_strlen leaf ptr
      in case Utf8_decode E (bytesAt leaf ptr wordSize) of None \<Rightarrow> Inl CantDecodeUtf8
         | Some w \<Rightarrow>
            (let foldedWord = Folding_apply E (wcstr w);
                 compareResult = compare3 target foldedWord
             in if compareResult = 0 then Inr (Exact (ptr - 4))
                else if compareResult < 0
                then (if windowSize div 2 = 0 then Inr (Candidate (ptr - 4))
                      else searchLeaf E target leaf chainOffsets window (windowSize div 2))
                else (if windowSize - (windowSize div 2 + 1) = 0
                      then (if chainToCheck = length chainOffsets - 1 then Inr PastEnd
                            else Inr (Candidate (chainOffsets ! (chainToCheck + 1))))
                      else searchLeaf E target leaf chainOffsets (chainToCheck + 1)
                             (windowSize - (windowSize div 2 + 1)))))"
  by pat_completeness auto
termination
  by (relation "measure (\<lambda>(E, target, leaf, cs, window, windowSize). windowSize)") auto

declare searchLeaf.simps [simp del]

record lookup =
  chainOffset :: "nat option"
  chainBuf :: bytes
  exactMatch :: bool
  extLeaf :: bytes
  nextLeaf :: nat
  leafEnd :: nat

text \<open>
  The branch ``A leaf'' of the descent, \<open>leaf\<close> being the buffer of the node at
  \<open>currentNodeOffset\<close>. The result holds the returned pointer (\<open>None\<close> for the null
  pointer) together with the buffer it points into.
\<close>

definition findInLeaf ::
  "env \<Rightarrow> nat \<Rightarrow> wstring \<Rightarrow> nat \<Rightarrow> bytes \<Rightarrow> bytes \<Rightarrow> idx_file
     \<Rightarrow> error + (lookup \<times> idx_file)" where
  "findInLeaf E rootOffset target currentNodeOffset leaf extLeaf0 f =
     (let leafEntries = peek32 leaf 0
      in case (if currentNodeOffset \<noteq> rootOffset then fread32 f else Inr (0, f)) of
           Inl e \<Rightarrow> Inl e
         | Inr (nextLeaf0, f1) \<Rightarrow>
             if leafEntries = 0
             then (if currentNodeOffset \<noteq> rootOffset then Inl CorruptedChainData
                   else Inr (\<lparr>chainOffset = None, chainBuf = leaf, exactMatch = False,
                              extLeaf = extLeaf0, nextLeaf = nextLeaf0,
                              leafEnd = length leaf\<rparr>, f1))
             else (let chainOffsets = chainPointers leaf 4 leafEntries
               in case searchLeaf E target leaf chainOffsets 0 (length chainOffsets) of
                 Inl e \<Rightarrow> Inl e
               | Inr (Exact p) \<Rightarrow>
                   Inr (\<lparr>chainOffset = Some p, chainBuf = leaf, exactMatch = True,
                         extLeaf = extLeaf0, nextLeaf = nextLeaf0, leafEnd = length leaf\<rparr>, f1)
               | Inr (Candidate p) \<Rightarrow>
                   Inr (\<lparr>chainOffset = Some p, chainBuf = leaf, exactMatch = False,
                         extLeaf = extLeaf0, nextLeaf = nextLeaf0, leafEnd = length leaf\<rparr>, f1)
               | Inr PastEnd \<Rightarrow>
                   if nextLeaf0 \<noteq> 0
                   then (case readNode E f1 nextLeaf0 of Inl e \<Rightarrow> Inl e
                     | Inr (ext, f2) \<Rightarrow>
                    (case fread32 f2 of Inl e \<Rightarrow> Inl e
                     | Inr (nextLeaf1, f3) \<Rightarrow>
                         Inr (\<lparr>chainOffset = Some 4, chainBuf = ext, exactMatch = False,
                               extLeaf = ext, nextLeaf = nextLeaf1, leafEnd = length ext\<rparr>, f3)))
                   else Inr (\<lparr>chainOffset = None, chainBuf = leaf, exactMatch = False,
                              extLeaf = extLeaf0, nextLeaf = nextLeaf0,
                              leafEnd = length leaf\<rparr>, f1)))"

subsection \<open>The descent\<close>

text \<open>
  The loop of \<open>findChainOffsetExactOrPrefix\<close> over the levels of the tree. On a file
  whose nodes point to each other in a cycle it never ends, so it runs on fuel: one unit
  for each node it visits, \<open>None\<close> when the fuel runs out.
\<close>

fun descend ::
  "env \<Rightarrow> nat \<Rightarrow> nat \<Rightarrow> nat \<Rightarrow> wstring \<Rightarrow> nat \<Rightarrow> bytes \<Rightarrow> bytes \<Rightarrow> idx_file
     \<Rightarrow> (error + (lookup \<times> idx_file)) option" where
  "descend E 0 indexNodeSize rootOffset target currentNodeOffset leaf extLeaf0 f = None"
| "descend E (Suc fuel) indexNodeSize rootOffset target currentNodeOffset leaf extLeaf0 f =
     (if peek32 leaf 0 = 0xFFFFFFFF
      then (case findChild E indexNodeSize target leaf currentNodeOffset of
              None \<Rightarrow> None
            | Some (Inl e) \<Rightarrow> Some (Inl e)
            | Some (Inr child) \<Rightarrow>
               (case readNode E f child of Inl e \<Rightarrow> Some (Inl e)
                | Inr (ext, f1) \<Rightarrow>
                    descend E fuel indexNodeSize rootOffset target child ext ext f1))
      else Some (findInLeaf E rootOffset target currentNodeOffset leaf extLeaf0 f))"

record BtreeIndex =
  idxFile :: "idx_file option"
  indexNodeSize :: nat
  rootOffset :: nat
  rootNodeLoaded :: bool
  rootNode :: bytes

definition openIndex :: "IndexInfo \<Rightarrow> idx_file \<Rightarrow> BtreeIndex" where
  "openIndex indexInfo f =
     \<lparr>idxFile = Some f, indexNodeSize = btreeMaxElements indexInfo,
      rootOffset = info_rootOffset indexInfo, rootNodeLoaded = False, rootNode = []\<rparr>"

definition findChainOffsetExactOrPrefix ::
  "env \<Rightarrow> nat \<Rightarrow> BtreeIndex \<Rightarrow> wstring \<Rightarrow> (error + (lookup \<times> BtreeIndex)) option" where
  "findChainOffsetExactOrPrefix E fuel idx target =
     (case idxFile idx of None \<Rightarrow> Some (Inl IndexWasNotOpened)
      | Some f \<Rightarrow>
     (case (if \<not> rootNodeLoaded idx then readNode E f (rootOffset idx)
            else Inr (rootNode idx, f)) of
        Inl e \<Rightarrow> Some (Inl e)
      | Inr (rootBuf, f1) \<Rightarrow>
     (case descend E fuel (indexNodeSize idx) (rootOffset idx) target (rootOffset idx)
             rootBuf [] f1 of
        None \<Rightarrow> None
      | Some (Inl e) \<Rightarrow> Some (Inl e)
      | Some (Inr (r, f2)) \<Rightarrow>
          Some (Inr (r, idx\<lparr>idxFile := Some f2, rootNodeLoaded := True, rootNode := rootBuf\<rparr>)))))"

section \<open>Chains: readChain and antialias\<close>

text \<open>
  The loop of \<open>readChain\<close>: the word and the prefix are read as strings at \<open>ptr\<close>, then
  the article offset, and only then is \<open>chainSize\<close> compared with the size of the record.
\<close>

function readChain_loop :: "bytes \<Rightarrow> nat \<Rightarrow> nat \<Rightarrow> chain \<Rightarrow> error + (chain \<times> nat)" where
  "readChain_loop buf ptr chainSize result =
     (if chainSize = 0 then Inr (result, ptr)
      else (let str = cstringAt buf ptr;
                ptr1 = ptr + length str + 1;
                prefix = cstringAt buf ptr1;
                ptr2 = ptr1 + length prefix + 1;
                articleOffset = of_nat (peek32 buf ptr2);
                ptr3 = ptr2 + 4
            in if chainSize < length str + 1 + length prefix + 1 + 4
               then Inl CorruptedChainData
               else readChain_loop buf ptr3 (chainSize - (length str + 1 + length prefix + 1 + 4))
                      (result @ [\<lparr>word = str, articleOffset = articleOffset,
                                   prefix = prefix\<rparr>])))"
  by pat_completeness auto
termination
  by (relation "measure (\<lambda>(buf, ptr, chainSize, result). chainSize)") auto

declare readChain_loop.simps [simp del]

text \<open>\<open>readChain\<close> returns the links and leaves \<open>ptr\<close> after the chain.\<close>

definition readChain :: "bytes \<Rightarrow> nat \<Rightarrow> error + (chain \<times> nat)" where
  "readChain buf ptr = readChain_loop buf (ptr + 4) (peek32 buf ptr) []"

text \<open>The loop of \<open>antialias\<close>, \<open>x\<close> counting down from the size of the chain.\<close>

fun antialias_loop :: "env \<Rightarrow> wstring \<Rightarrow> nat \<Rightarrow> chain \<Rightarrow> error + chain" where
  "antialias_loop E caseFolded 0 chain = Inr chain"
| "antialias_loop E caseFolded (Suc x) chain =
     (case Utf8_decode E (prefix (chain ! x) @ word (chain ! x)) of
        None \<Rightarrow> Inl CantDecodeUtf8
      | Some w \<Rightarrow>
          if applySimpleCaseOnly E w \<noteq> caseFolded
          then antialias_loop E caseFolded x (take x chain @ drop (Suc x) chain)
          else if prefix (chain ! x) \<noteq> []
          then antialias_loop E caseFolded x
                 (chain[x := (chain ! x)\<lparr>word := prefix (chain ! x) @ word (chain ! x),
                                          prefix := []\<rparr>])
          else antialias_loop E caseFolded x chain)"

definition antialias :: "env \<Rightarrow> wstring \<Rightarrow> chain \<Rightarrow> error + chain" where
  "antialias E str chain = antialias_loop E (applySimpleCaseOnly E str) (length chain) chain"

definition findArticles ::
  "env \<Rightarrow> nat \<Rightarrow> BtreeIndex \<Rightarrow> wstring \<Rightarrow> (error + (chain \<times> BtreeIndex)) option" where
  "findArticles E fuel idx str =
     (let folded = Folding_apply E str
      in case findChainOffsetExactOrPrefix E fuel idx folded of None \<Rightarrow> None
         | Some (Inl e) \<Rightarrow> Some (Inl e)
         | Some (Inr (r, idx')) \<Rightarrow>
            (case chainOffset r of None \<Rightarrow> Some (Inr ([], idx'))
             | Some p \<Rightarrow>
                 if exactMatch r
                 then (case readChain (chainBuf r) p of Inl e \<Rightarrow> Some (Inl e)
                       | Inr (result, p') \<Rightarrow>
                          (case antialias E str result of Inl e \<Rightarrow> Some (Inl e)
                           | Inr result' \<Rightarrow> Some (Inr (result', idx'))))
                 else Some (Inr ([], idx'))))"

section \<open>32-bit fields and C strings in a buffer\<close>

lemma length_put32 [simp]: "length (put32 n) = 4"
  by (simp add: put32_def)

lemma unat_byte_less: "unat (x :: byte) < 256"
  using unsigned_less [of x] by simp

lemma get32_put32: "get32 (put32 n) = n mod 2 ^ 32"
proof -
  have a: "unat (of_nat k :: byte) = k mod 256" for k
    by (simp add: unat_of_nat)
  have m: "m mod 65536 = m mod 256 + 256 * (m div 256 mod 256)" for m :: nat
    using mod_mult2_eq [of m 256 256] by simp
  have d1: "n div 16777216 = n div 65536 div 256"
    by (simp add: div_mult2_eq)
  have lhs: "get32 (put32 n) = n mod 256 + 256 * (n div 256 mod 256
      + 256 * (n div 65536 mod 256 + 256 * (n div 16777216 mod 256)))"
    unfolding put32_def get32_def by (simp add: a)
  have "n mod 4294967296 = n mod 65536 + 65536 * (n div 65536 mod 65536)"
    using mod_mult2_eq [of n 65536 65536] by simp
  also have "\<dots> = n mod 256 + 256 * (n div 256 mod 256)
      + 65536 * (n div 65536 mod 256 + 256 * (n div 16777216 mod 256))"
    unfolding m [of n] m [of "n div 65536"] d1 ..
  also have "\<dots> = n mod 256 + 256 * (n div 256 mod 256
      + 256 * (n div 65536 mod 256 + 256 * (n div 16777216 mod 256)))"
    by (simp only: distrib_left mult.assoc [symmetric] add.assoc)
  finally have "n mod 2 ^ 32 = n mod 256 + 256 * (n div 256 mod 256
      + 256 * (n div 65536 mod 256 + 256 * (n div 16777216 mod 256)))"
    by simp
  with lhs show ?thesis by simp
qed

lemma get32_put32_u32: "get32 (put32 n) = u32 n"
  by (simp add: get32_put32 u32_def)

lemma get32_bound: "length bs = 4 \<Longrightarrow> get32 bs < 2 ^ 32"
proof -
  assume "length bs = 4"
  then obtain a b c d where bs: "bs = [a, b, c, d]"
    by (auto simp: length_Suc_conv numeral_eq_Suc)
  show ?thesis
    unfolding bs get32_def
    using unat_byte_less [of a] unat_byte_less [of b] unat_byte_less [of c] unat_byte_less [of d]
    by simp
qed

lemma put32_get32: "length bs = 4 \<Longrightarrow> put32 (get32 bs) = bs"
proof -
  assume "length bs = 4"
  then obtain a b c d where bs: "bs = [a, b, c, d]"
    by (auto simp: length_Suc_conv numeral_eq_Suc)
  have e: "(256 :: byte) = 0" by simp
  have "(of_nat (unat x + 256 * k) :: byte) = x + 256 * of_nat k" for x k
    by simp
  then have z: "(of_nat (unat x + 256 * k) :: byte) = x" for x k
    unfolding e by simp
  have dv: "(unat x + 256 * k) div 256 = k" for x :: byte and k
    using unat_byte_less [of x] by simp
  let ?g = "get32 [a, b, c, d]"
  have s1: "?g = unat a + 256 * (unat b + 256 * (unat c + 256 * unat d))"
    by (simp add: get32_def)
  have d1: "?g div 256 = unat b + 256 * (unat c + 256 * unat d)"
    unfolding s1 by (rule dv)
  have d2: "?g div 65536 = unat c + 256 * unat d"
  proof -
    have "?g div 65536 = ?g div 256 div 256"
      by (simp add: div_mult2_eq)
    then show ?thesis unfolding d1 by (simp only: dv)
  qed
  have d3: "?g div 16777216 = unat d"
  proof -
    have "?g div 16777216 = ?g div 65536 div 256"
      by (simp add: div_mult2_eq)
    then show ?thesis unfolding d2 using unat_byte_less [of c] by simp
  qed
  have "put32 ?g = [of_nat ?g, of_nat (?g div 256), of_nat (?g div 65536), of_nat (?g div 16777216)]"
    by (simp only: put32_def)
  also have "\<dots> = [a, b, c, d]"
    unfolding d1 d2 d3 unfolding s1 by (simp only: z) simp
  finally show ?thesis unfolding bs .
qed

lemma bytesAt_c_strlen: "bytesAt buf p (c_strlen buf p) = cstringAt buf p"
  unfolding bytesAt_def c_strlen_def cstringAt_def by (rule takeWhile_eq_take [symmetric])

lemma cstringAt_drop:
  assumes "drop p buf = w @ 0 # rest" and "0 \<notin> set w"
  shows "cstringAt buf p = w"
proof -
  have "takeWhile (\<lambda>b. b \<noteq> 0) w = w"
    using assms(2) by (auto simp: takeWhile_eq_all_conv)
  then show ?thesis
    unfolding cstringAt_def assms(1) by (simp add: takeWhile_tail)
qed

lemma cstringAt_nulfree: "0 \<notin> set (cstringAt buf p)"
  by (auto simp: cstringAt_def dest: set_takeWhileD)

lemma bytesAt_drop: "drop p buf = w @ rest \<Longrightarrow> bytesAt buf p (length w) = w"
  by (simp add: bytesAt_def)

lemma drop_drop_eq: "drop p buf = w @ rest \<Longrightarrow> drop (p + length w) buf = rest"
proof -
  assume a: "drop p buf = w @ rest"
  have "drop (p + length w) buf = drop (length w) (drop p buf)"
    by (simp add: add.commute)
  then show ?thesis unfolding a by simp
qed

section \<open>Properties of readChain\<close>

text \<open>A link whose strings can be stored NUL-terminated.\<close>

definition nulfree :: "WordArticleLink \<Rightarrow> bool" where
  "nulfree l = (0 \<notin> set (word l) \<and> 0 \<notin> set (prefix l))"

lemma length_serializeLink:
  "length (serializeLink l) = length (word l) + 1 + length (prefix l) + 1 + 4"
  by (simp add: serializeLink_def)

lemma articleOffset_put32: "(of_nat (get32 (put32 (unat w))) :: 32 word) = w"
proof -
  have "unat w < 2 ^ 32" using unsigned_less [of w] by simp
  then show ?thesis by (simp add: get32_put32)
qed

text \<open>
  The record at an address, as the specification describes it: a NUL-terminated word, a
  NUL-terminated prefix after it, and a 32-bit article offset after that.
\<close>

definition linkAt :: "bytes \<Rightarrow> nat \<Rightarrow> WordArticleLink" where
  "linkAt buf a =
     \<lparr>word = cstringAt buf a,
      articleOffset =
        of_nat (peek32 buf (a + length (cstringAt buf a) + 1
                  + length (cstringAt buf (a + length (cstringAt buf a) + 1)) + 1)),
      prefix = cstringAt buf (a + length (cstringAt buf a) + 1)\<rparr>"

text \<open>The links are the records that lie one after the other from an address on.\<close>

fun recordsAt :: "bytes \<Rightarrow> nat \<Rightarrow> chain \<Rightarrow> bool" where
  "recordsAt buf a [] = True"
| "recordsAt buf a (l # ls) =
     (l = linkAt buf a \<and> recordsAt buf (a + length (serializeLink l)) ls)"

text \<open>The number of bytes the records of a chain take.\<close>

definition chainBytes :: "chain \<Rightarrow> nat" where
  "chainBytes ls = length (concat (map serializeLink ls))"

lemma chainBytes_simps [simp]:
  "chainBytes [] = 0"
  "chainBytes (l # ls) = length (serializeLink l) + chainBytes ls"
  "chainBytes (ls @ ls') = chainBytes ls + chainBytes ls'"
  by (simp_all add: chainBytes_def)

lemma serializeLink_pos: "0 < length (serializeLink l)"
  by (simp add: length_serializeLink)

lemma serializeLink_nonempty [simp]: "serializeLink l \<noteq> []"
  by (simp add: serializeLink_def)

lemma readChain_loop_unfold:
  "readChain_loop buf ptr chainSize result =
     (if chainSize = 0 then Inr (result, ptr)
      else if chainSize < length (serializeLink (linkAt buf ptr)) then Inl CorruptedChainData
      else readChain_loop buf (ptr + length (serializeLink (linkAt buf ptr)))
             (chainSize - length (serializeLink (linkAt buf ptr))) (result @ [linkAt buf ptr]))"
proof -
  let ?str = "cstringAt buf ptr"
  let ?pre = "cstringAt buf (ptr + length ?str + 1)"
  have e1: "length ?str + 1 + length ?pre + 1 + 4 = length (serializeLink (linkAt buf ptr))"
    by (simp add: length_serializeLink linkAt_def)
  have e2: "ptr + length ?str + 1 + length ?pre + 1 + 4
      = ptr + length (serializeLink (linkAt buf ptr))"
    by (simp add: length_serializeLink linkAt_def)
  have e3: "\<lparr>word = ?str,
      articleOffset = of_nat (peek32 buf (ptr + length ?str + 1 + length ?pre + 1)),
      prefix = ?pre\<rparr> = linkAt buf ptr"
    by (simp only: linkAt_def)
  show ?thesis
    by (subst readChain_loop.simps) (simp only: Let_def e1 e2 e3)
qed

lemma recordsAt_append:
  "recordsAt buf a (ls @ ls') \<longleftrightarrow> recordsAt buf a ls \<and> recordsAt buf (a + chainBytes ls) ls'"
  by (induction ls arbitrary: a) (auto simp: add.assoc)

lemma readChain_loop_complete:
  "recordsAt buf a ls \<Longrightarrow>
     readChain_loop buf a (chainBytes ls) res = Inr (res @ ls, a + chainBytes ls)"
proof (induction ls arbitrary: a res)
  case Nil
  then show ?case by (simp add: readChain_loop_unfold)
next
  case (Cons l ls)
  from Cons.prems have l: "linkAt buf a = l"
    and r: "recordsAt buf (a + length (serializeLink l)) ls"
    by auto
  have "readChain_loop buf a (chainBytes (l # ls)) res
      = readChain_loop buf (a + length (serializeLink l)) (chainBytes ls) (res @ [l])"
    by (subst readChain_loop_unfold) (simp add: l serializeLink_pos)
  also have "\<dots> = Inr ((res @ [l]) @ ls, a + length (serializeLink l) + chainBytes ls)"
    using r by (rule Cons.IH)
  finally show ?case by (simp add: add.assoc)
qed

lemma readChain_loop_corrupted:
  "recordsAt buf a (ls @ [r]) \<Longrightarrow> chainBytes ls < chainSize \<Longrightarrow>
     chainSize < chainBytes (ls @ [r]) \<Longrightarrow>
     readChain_loop buf a chainSize res = Inl CorruptedChainData"
proof (induction ls arbitrary: a res chainSize)
  case Nil
  then have "linkAt buf a = r" by auto
  with Nil show ?case
    by (subst readChain_loop_unfold) simp
next
  case (Cons l ls)
  from Cons.prems(1) have l: "linkAt buf a = l"
    and rec: "recordsAt buf (a + length (serializeLink l)) (ls @ [r])"
    by auto
  from Cons.prems(2) have big: "length (serializeLink l) \<le> chainSize" "chainSize \<noteq> 0"
    by simp_all
  have "readChain_loop buf a chainSize res
      = readChain_loop buf (a + length (serializeLink l)) (chainSize - length (serializeLink l))
          (res @ [l])"
    using big by (subst readChain_loop_unfold) (simp add: l)
  also have "\<dots> = Inl CorruptedChainData"
    using rec
  proof (rule Cons.IH)
    show "chainBytes ls < chainSize - length (serializeLink l)"
      using Cons.prems(2) by simp
    show "chainSize - length (serializeLink l) < chainBytes (ls @ [r])"
      using Cons.prems(3) big by simp
  qed
  finally show ?case .
qed

lemma readChain_loop_sound:
  "readChain_loop buf a chainSize res = Inr (out, p') \<Longrightarrow>
     \<exists>new. out = res @ new \<and> recordsAt buf a new \<and> chainBytes new = chainSize \<and>
       p' = a + chainSize"
proof (induction chainSize arbitrary: a res rule: less_induct)
  case (less chainSize)
  let ?l = "linkAt buf a"
  let ?n = "length (serializeLink ?l)"
  show ?case
  proof (cases "chainSize = 0")
    case True
    with less.prems show ?thesis by (simp add: readChain_loop_unfold)
  next
    case False
    with less.prems have sz: "?n \<le> chainSize"
      and rec: "readChain_loop buf (a + ?n) (chainSize - ?n) (res @ [?l]) = Inr (out, p')"
      by (subst (asm) readChain_loop_unfold, simp split: if_splits)+
    have "chainSize - ?n < chainSize"
      using False serializeLink_pos [of ?l] by simp
    from less.IH [OF this rec]
    obtain new where new: "out = (res @ [?l]) @ new" "recordsAt buf (a + ?n) new"
      "chainBytes new = chainSize - ?n" "p' = a + ?n + (chainSize - ?n)"
      by blast
    have "out = res @ (?l # new)" using new(1) by simp
    moreover have "recordsAt buf a (?l # new)" using new(2) by simp
    moreover have "chainBytes (?l # new) = chainSize" using new(3) sz by simp
    moreover have "p' = a + chainSize" using new(4) sz by simp
    ultimately show ?thesis by blast
  qed
qed

lemma readChain_loop_failure:
  "readChain_loop buf a chainSize res = Inl e \<Longrightarrow>
     e = CorruptedChainData \<and>
     (\<exists>ls r. recordsAt buf a (ls @ [r]) \<and> chainBytes ls < chainSize \<and>
        chainSize < chainBytes (ls @ [r]))"
proof (induction chainSize arbitrary: a res rule: less_induct)
  case (less chainSize)
  let ?l = "linkAt buf a"
  let ?n = "length (serializeLink ?l)"
  from less.prems have nz: "chainSize \<noteq> 0"
    by (subst (asm) readChain_loop_unfold) (auto split: if_splits)
  show ?case
  proof (cases "chainSize < ?n")
    case True
    with less.prems nz have e: "e = CorruptedChainData"
      by (subst (asm) readChain_loop_unfold) simp
    have "recordsAt buf a ([] @ [?l]) \<and> chainBytes [] < chainSize \<and>
        chainSize < chainBytes ([] @ [?l])"
      using True nz by simp
    with e show ?thesis by blast
  next
    case False
    with less.prems nz have
      rec: "readChain_loop buf (a + ?n) (chainSize - ?n) (res @ [?l]) = Inl e"
      by (subst (asm) readChain_loop_unfold) simp
    have "chainSize - ?n < chainSize"
      using nz serializeLink_pos [of ?l] by simp
    from less.IH [OF this rec]
    obtain ls r where x: "e = CorruptedChainData" "recordsAt buf (a + ?n) (ls @ [r])"
      "chainBytes ls < chainSize - ?n" "chainSize - ?n < chainBytes (ls @ [r])"
      by blast
    have "recordsAt buf a ((?l # ls) @ [r])" using x(2) by simp
    moreover have "chainBytes (?l # ls) < chainSize" using x(3) False by simp
    moreover have "chainSize < chainBytes ((?l # ls) @ [r])" using x(4) False by simp
    ultimately show ?thesis using x(1) by blast
  qed
qed

lemma linkAt_serialized:
  assumes d: "drop a buf = serializeLink l @ rest" and nf: "nulfree l"
  shows "linkAt buf a = l"
proof -
  let ?n = "length (word l)" and ?k = "length (prefix l)"
  let ?o = "put32 (unat (articleOffset l))"
  from nf have w: "0 \<notin> set (word l)" and p: "0 \<notin> set (prefix l)"
    by (simp_all add: nulfree_def)
  have d0: "drop a buf = word l @ 0 # (prefix l @ 0 # ?o @ rest)"
    unfolding d by (simp add: serializeLink_def)
  have c1: "cstringAt buf a = word l"
    using d0 w by (rule cstringAt_drop)
  have "drop (a + length (word l @ [0])) buf = prefix l @ 0 # ?o @ rest"
    by (rule drop_drop_eq) (use d0 in simp)
  then have d1: "drop (a + ?n + 1) buf = prefix l @ 0 # (?o @ rest)"
    by simp
  have c2: "cstringAt buf (a + ?n + 1) = prefix l"
    using d1 p by (rule cstringAt_drop)
  have "drop (a + ?n + 1 + length (prefix l @ [0])) buf = ?o @ rest"
    by (rule drop_drop_eq) (use d1 in simp)
  then have d2: "drop (a + ?n + 1 + ?k + 1) buf = ?o @ rest"
    by simp
  have "bytesAt buf (a + ?n + 1 + ?k + 1) (length ?o) = ?o"
    using d2 by (rule bytesAt_drop)
  then have c3: "peek32 buf (a + ?n + 1 + ?k + 1) = get32 ?o"
    by (simp add: peek32_def)
  show ?thesis
    unfolding linkAt_def c1 c2 c3 articleOffset_put32 by simp
qed

lemma recordsAt_serialized:
  "\<forall>l\<in>set ls. nulfree l \<Longrightarrow> drop a buf = concat (map serializeLink ls) @ rest \<Longrightarrow>
     recordsAt buf a ls"
proof (induction ls arbitrary: a)
  case Nil
  show ?case by simp
next
  case (Cons l ls)
  from Cons.prems have nf: "nulfree l" by simp
  have d: "drop a buf = serializeLink l @ (concat (map serializeLink ls) @ rest)"
    using Cons.prems(2) by simp
  have "drop (a + length (serializeLink l)) buf = concat (map serializeLink ls) @ rest"
    using d by (rule drop_drop_eq)
  with Cons.prems(1) have "recordsAt buf (a + length (serializeLink l)) ls"
    by (intro Cons.IH) simp_all
  with linkAt_serialized [OF d nf] show ?case by simp
qed

text \<open>
  C7. \<open>readChain\<close>, given a pointer to the size word of a chain, returns a list of
  links exactly when these links are the records (NUL-terminated word, NUL-terminated
  prefix, 32-bit article offset) that lie one after the other behind the size word and
  take \<open>chainSize\<close> bytes together; it then leaves the pointer right after these bytes.
  It fails with \<open>CorruptedChainData\<close> exactly when, after some records, bytes of the
  chain remain and the next record is longer than what remains. One of the two happens
  for every buffer and pointer. In particular a chain as the builder serializes it is
  read back link by link.
\<close>

theorem readChain_spec:
  "(readChain buf p = Inr (ls, p') \<longleftrightarrow>
      recordsAt buf (p + 4) ls \<and> chainBytes ls = peek32 buf p \<and> p' = p + 4 + peek32 buf p) \<and>
   (readChain buf p = Inl CorruptedChainData \<longleftrightarrow>
      (\<exists>ls r. recordsAt buf (p + 4) (ls @ [r]) \<and> chainBytes ls < peek32 buf p \<and>
         peek32 buf p < chainBytes (ls @ [r]))) \<and>
   ((\<exists>ls p'. readChain buf p = Inr (ls, p')) \<or> readChain buf p = Inl CorruptedChainData) \<and>
   ((\<forall>l\<in>set ls'. nulfree l) \<and> chainBytes ls' < 2 ^ 32 \<and> drop p buf = serializeChain ls' @ rest
      \<longrightarrow> readChain buf p = Inr (ls', p + length (serializeChain ls')))"
proof (intro conjI)
  show "readChain buf p = Inr (ls, p') \<longleftrightarrow>
      recordsAt buf (p + 4) ls \<and> chainBytes ls = peek32 buf p \<and> p' = p + 4 + peek32 buf p"
  proof
    assume "readChain buf p = Inr (ls, p')"
    then have "readChain_loop buf (p + 4) (peek32 buf p) [] = Inr (ls, p')"
      by (simp add: readChain_def)
    from readChain_loop_sound [OF this]
    show "recordsAt buf (p + 4) ls \<and> chainBytes ls = peek32 buf p \<and> p' = p + 4 + peek32 buf p"
      by auto
  next
    assume a: "recordsAt buf (p + 4) ls \<and> chainBytes ls = peek32 buf p \<and> p' = p + 4 + peek32 buf p"
    then have "readChain_loop buf (p + 4) (chainBytes ls) [] = Inr ([] @ ls, p + 4 + chainBytes ls)"
      by (intro readChain_loop_complete) simp
    with a show "readChain buf p = Inr (ls, p')"
      by (simp add: readChain_def)
  qed
  show "readChain buf p = Inl CorruptedChainData \<longleftrightarrow>
      (\<exists>ls r. recordsAt buf (p + 4) (ls @ [r]) \<and> chainBytes ls < peek32 buf p \<and>
         peek32 buf p < chainBytes (ls @ [r]))"
  proof
    assume "readChain buf p = Inl CorruptedChainData"
    then have "readChain_loop buf (p + 4) (peek32 buf p) [] = Inl CorruptedChainData"
      by (simp add: readChain_def)
    from readChain_loop_failure [OF this]
    show "\<exists>ls r. recordsAt buf (p + 4) (ls @ [r]) \<and> chainBytes ls < peek32 buf p \<and>
         peek32 buf p < chainBytes (ls @ [r])"
      by simp
  next
    assume "\<exists>ls r. recordsAt buf (p + 4) (ls @ [r]) \<and> chainBytes ls < peek32 buf p \<and>
         peek32 buf p < chainBytes (ls @ [r])"
    then obtain ls r where "recordsAt buf (p + 4) (ls @ [r])" "chainBytes ls < peek32 buf p"
      "peek32 buf p < chainBytes (ls @ [r])"
      by blast
    then have "readChain_loop buf (p + 4) (peek32 buf p) [] = Inl CorruptedChainData"
      by (rule readChain_loop_corrupted)
    then show "readChain buf p = Inl CorruptedChainData"
      by (simp add: readChain_def)
  qed
  show "(\<exists>ls p'. readChain buf p = Inr (ls, p')) \<or> readChain buf p = Inl CorruptedChainData"
  proof (cases "readChain buf p")
    case (Inl e)
    then have "readChain_loop buf (p + 4) (peek32 buf p) [] = Inl e"
      by (simp add: readChain_def)
    from readChain_loop_failure [OF this] Inl show ?thesis by simp
  next
    case (Inr x)
    then show ?thesis by (cases x) simp
  qed
  show "(\<forall>l\<in>set ls'. nulfree l) \<and> chainBytes ls' < 2 ^ 32 \<and> drop p buf = serializeChain ls' @ rest
      \<longrightarrow> readChain buf p = Inr (ls', p + length (serializeChain ls'))"
  proof
    assume a: "(\<forall>l\<in>set ls'. nulfree l) \<and> chainBytes ls' < 2 ^ 32 \<and>
      drop p buf = serializeChain ls' @ rest"
    let ?recs = "concat (map serializeLink ls')"
    from a have d: "drop p buf = put32 (chainBytes ls') @ (?recs @ rest)"
      by (simp add: serializeChain_def Let_def chainBytes_def)
    have "bytesAt buf p (length (put32 (chainBytes ls'))) = put32 (chainBytes ls')"
      using d by (rule bytesAt_drop)
    then have "peek32 buf p = get32 (put32 (chainBytes ls'))"
      by (simp add: peek32_def)
    with a have pk: "peek32 buf p = chainBytes ls'"
      by (simp add: get32_put32)
    have "drop (p + length (put32 (chainBytes ls'))) buf = ?recs @ rest"
      using d by (rule drop_drop_eq)
    then have "drop (p + 4) buf = ?recs @ rest" by simp
    with a have "recordsAt buf (p + 4) ls'"
      by (intro recordsAt_serialized) simp_all
    then have "readChain_loop buf (p + 4) (chainBytes ls') [] = Inr ([] @ ls', p + 4 + chainBytes ls')"
      by (rule readChain_loop_complete)
    then show "readChain buf p = Inr (ls', p + length (serializeChain ls'))"
      by (simp add: readChain_def pk serializeChain_def Let_def chainBytes_def)
  qed
qed

theorem readChain_spec_witness:
  "readChain [7, 0, 0, 0, 97, 0, 0, 1, 0, 0, 0] 0
     = Inr ([\<lparr>word = [97], articleOffset = 1, prefix = []\<rparr>], 11) \<and>
   readChain [8, 0, 0, 0, 97, 0, 0, 1, 0, 0, 0] 0 = Inl CorruptedChainData \<and>
   readChain [1, 0, 0, 0, 9, 0, 0, 0, 97, 0, 0, 1, 0, 0, 0] 4 = Inl CorruptedChainData"
proof -
  let ?l = "\<lparr>word = [97], articleOffset = 1, prefix = []\<rparr> :: WordArticleLink"
  let ?e = "\<lparr>word = [], articleOffset = 0, prefix = []\<rparr> :: WordArticleLink"
  let ?b7 = "[7, 0, 0, 0, 97, 0, 0, 1, 0, 0, 0] :: bytes"
  let ?b8 = "[8, 0, 0, 0, 97, 0, 0, 1, 0, 0, 0] :: bytes"
  let ?b9 = "[1, 0, 0, 0, 9, 0, 0, 0, 97, 0, 0, 1, 0, 0, 0] :: bytes"
  have ser: "serializeLink ?l = [97, 0, 0, 1, 0, 0, 0]" "serializeLink ?e = [0, 0, 0, 0, 0, 0]"
    by (simp_all add: serializeLink_def put32_def)
  have cb: "chainBytes [?l] = 7" "chainBytes ([?l] @ [?e]) = 13"
    by (simp_all add: chainBytes_def ser)
  have nf: "\<forall>l\<in>set [?l]. nulfree l"
    by (simp add: nulfree_def)
  have "drop 0 ?b7 = serializeChain [?l] @ []"
    by (simp add: serializeChain_def ser put32_def)
  with nf cb(1) have "readChain ?b7 0 = Inr ([?l], 0 + length (serializeChain [?l]))"
    using readChain_spec [where buf = ?b7 and p = 0 and ls' = "[?l]" and rest = "[]"]
    by simp
  then have one: "readChain ?b7 0 = Inr ([?l], 11)"
    by (simp add: serializeChain_def ser)
  have pk: "peek32 ?b8 0 = 8" "peek32 ?b9 4 = 9"
    by (simp_all add: peek32_def bytesAt_def get32_def)
  have r8: "recordsAt ?b8 (0 + 4) ([?l] @ [?e])"
    by (simp add: linkAt_def cstringAt_def peek32_def bytesAt_def get32_def ser)
  have r9: "recordsAt ?b9 (4 + 4) ([?l] @ [?e])"
    by (simp add: linkAt_def cstringAt_def peek32_def bytesAt_def get32_def ser)
  have "\<exists>ls r. recordsAt ?b8 (0 + 4) (ls @ [r]) \<and> chainBytes ls < peek32 ?b8 0 \<and>
      peek32 ?b8 0 < chainBytes (ls @ [r])"
    using r8 cb pk by (intro exI [of _ "[?l]"] exI [of _ ?e]) simp
  then have two: "readChain ?b8 0 = Inl CorruptedChainData"
    using readChain_spec [where buf = ?b8 and p = 0] by blast
  have "\<exists>ls r. recordsAt ?b9 (4 + 4) (ls @ [r]) \<and> chainBytes ls < peek32 ?b9 4 \<and>
      peek32 ?b9 4 < chainBytes (ls @ [r])"
    using r9 cb pk by (intro exI [of _ "[?l]"] exI [of _ ?e]) simp
  then have three: "readChain ?b9 4 = Inl CorruptedChainData"
    using readChain_spec [where buf = ?b9 and p = 4] by blast
  from one two three show ?thesis by simp
qed

section \<open>Properties of antialias and findArticles\<close>







lemma compare3_eq: "compare3 a b = 0 \<longleftrightarrow> a = b"
  by (simp add: compare3_def)

lemma compare3_less: "compare3 a b < 0 \<longleftrightarrow> a < b"
  by (auto simp: compare3_def)

lemma searchLeaf_unfold:
  "searchLeaf E target leaf chainOffsets window windowSize =
     (case Utf8_decode E (cstringAt leaf (chainOffsets ! (window + windowSize div 2) + 4)) of
        None \<Rightarrow> Inl CantDecodeUtf8
      | Some w \<Rightarrow>
          if target = Folding_apply E (wcstr w)
          then Inr (Exact (chainOffsets ! (window + windowSize div 2)))
          else if target < Folding_apply E (wcstr w)
          then (if windowSize div 2 = 0
                then Inr (Candidate (chainOffsets ! (window + windowSize div 2)))
                else searchLeaf E target leaf chainOffsets window (windowSize div 2))
          else (if windowSize - (windowSize div 2 + 1) = 0
                then (if window + windowSize div 2 = length chainOffsets - 1 then Inr PastEnd
                      else Inr (Candidate (chainOffsets ! (window + windowSize div 2 + 1))))
                else searchLeaf E target leaf chainOffsets (window + windowSize div 2 + 1)
                       (windowSize - (windowSize div 2 + 1))))"
  by (subst searchLeaf.simps)
    (simp only: Let_def bytesAt_c_strlen compare3_eq compare3_less add_diff_cancel_right')







text \<open>
  A sample index: the file that \<open>buildIndex\<close> writes for the headwords \<open>a\<close> (article 1),
  \<open>Ab\<close> (article 2) and \<open>x ab\<close> (article 3) added with \<open>addWord\<close>. Its only node is a
  leaf of three chains, for the keys \<open>a\<close>, \<open>ab\<close> and \<open>x ab\<close>; the chain of \<open>ab\<close> holds the
  headword \<open>Ab\<close> and the middle match of \<open>x ab\<close>.
\<close>

definition demo_leaf :: bytes where
  "demo_leaf = [3, 0, 0, 0,
     7, 0, 0, 0, 97, 0, 0, 1, 0, 0, 0,
     18, 0, 0, 0, 65, 98, 0, 0, 2, 0, 0, 0, 97, 98, 0, 120, 32, 0, 3, 0, 0, 0,
     10, 0, 0, 0, 120, 32, 97, 98, 0, 0, 3, 0, 0, 0]"

definition demo_file :: "nat \<Rightarrow> idx_file" where
  "demo_file pos = \<lparr>fdata = put32 51 @ put32 51 @ demo_leaf @ put32 0, fpos = pos\<rparr>"

definition demo_index :: BtreeIndex where
  "demo_index = openIndex \<lparr>btreeMaxElements = 64, info_rootOffset = 0\<rparr> (demo_file 63)"

definition demo_hit :: lookup where
  "demo_hit = \<lparr>chainOffset = Some 15, chainBuf = demo_leaf, exactMatch = True, extLeaf = [],
      nextLeaf = 0, leafEnd = 51\<rparr>"

lemma chainPointers_numeral:
  "chainPointers buf ptr (numeral k)
     = ptr # chainPointers buf (ptr + 4 + peek32 buf ptr) (pred_numeral k)"
  by (simp add: numeral_eq_Suc)

lemma demo_leaf_length: "length demo_leaf = 51"
  by (simp add: demo_leaf_def)

lemma demo_leaf_count: "peek32 demo_leaf 0 = 3"
  by (simp add: peek32_def bytesAt_def get32_def demo_leaf_def)

lemma demo_readNode: "readNode plain_env (demo_file 63) 0 = Inr (demo_leaf, demo_file 59)"
  by (simp add: readNode_def fread32_def fread_def seek_def demo_leaf_length plain_env_def
      put32_def get32_def demo_file_def)

lemma demo_chainPointers: "chainPointers demo_leaf 4 3 = [4, 15, 37]"
  by (simp add: chainPointers_numeral peek32_def bytesAt_def get32_def demo_leaf_def)




lemma demo_readChain:
  "readChain demo_leaf 15 = Inr ([\<lparr>word = [65, 98], articleOffset = 2, prefix = []\<rparr>,
     \<lparr>word = [97, 98], articleOffset = 3, prefix = [120, 32]\<rparr>], 37)"
proof -
  let ?l1 = "\<lparr>word = [65, 98], articleOffset = 2, prefix = []\<rparr> :: WordArticleLink"
  let ?l2 = "\<lparr>word = [97, 98], articleOffset = 3, prefix = [120, 32]\<rparr> :: WordArticleLink"
  have pk: "peek32 demo_leaf 15 = 18"
    by (simp add: peek32_def bytesAt_def get32_def demo_leaf_def)
  have ser: "serializeLink ?l1 = [65, 98, 0, 0, 2, 0, 0, 0]"
    "serializeLink ?l2 = [97, 98, 0, 120, 32, 0, 3, 0, 0, 0]"
    by (simp_all add: serializeLink_def put32_def)
  have "recordsAt demo_leaf 19 [?l1, ?l2]"
    by (simp add: ser linkAt_def cstringAt_def peek32_def bytesAt_def get32_def demo_leaf_def)
  moreover have "chainBytes [?l1, ?l2] = 18"
    by (simp add: chainBytes_def ser)
  ultimately show ?thesis
    using readChain_loop_complete [of demo_leaf 19 "[?l1, ?l2]" "[]"]
    by (simp add: readChain_def pk)
qed


section \<open>The empty index\<close>

lemma fwrite_append: "fwrite (fwrite f a) b = fwrite f (a @ b)"
proof -
  have "min (length (fdata f)) (fpos f) + (fpos f - length (fdata f)) = fpos f"
    by simp
  then show ?thesis
    by (simp add: fwrite_def ac_simps)
qed

lemma fpos_fwrite [simp]: "fpos (fwrite f bs) = fpos f + length bs"
  by (simp add: fwrite_def)

lemma fdata_fwrite:
  "drop (fpos f) (fdata (fwrite f bs)) = bs @ drop (fpos f + length bs) (fdata f)"
  by (simp add: fwrite_def)

lemma fread_fwrite:
  "fread (seek (fwrite f (a @ b @ c)) (fpos f + length a)) (length b)
     = Inr (b, seek (fwrite f (a @ b @ c)) (fpos f + length a + length b))"
proof -
  have "drop (fpos f + length a) (fdata (fwrite f (a @ b @ c)))
      = drop (length a) (drop (fpos f) (fdata (fwrite f (a @ b @ c))))"
    by (simp add: add.commute)
  also have "\<dots> = b @ c @ drop (fpos f + length (a @ b @ c)) (fdata f)"
    by (simp only: fdata_fwrite) simp
  finally have d: "drop (fpos f + length a) (fdata (fwrite f (a @ b @ c)))
      = b @ c @ drop (fpos f + length (a @ b @ c)) (fdata f)" .
  have "fpos f + length a + length b \<le> length (fdata (fwrite f (a @ b @ c)))"
    by (simp add: fwrite_def)
  with d show ?thesis
    by (simp add: fread_def seek_def)
qed

lemma skipEmptyWords_idem: "skipEmptyWords (skipEmptyWords m) = skipEmptyWords m"
  by (induction m) auto

lemma buildIndex_skip: "buildIndex E m f = buildIndex E (skipEmptyWords m) f"
  by (simp add: buildIndex_def skipEmptyWords_idem)

lemma floor_sqrt_0: "floor_sqrt 0 = 0"
  unfolding floor_sqrt_def by (subst sqrt_up.simps) simp

lemma buildIndex_empty:
  assumes "skipEmptyWords m = []"
  shows "buildIndex E m f =
     Some (\<lparr>btreeMaxElements = 64, info_rootOffset = u32 (fpos f)\<rparr>,
           fwrite f (put32 4 @ put32 (length (compress E (put32 0))) @ compress E (put32 0)
                     @ put32 0))"
proof -
  have c: "chooseMaxElements 0 = 64"
    by (simp add: chooseMaxElements_range floor_sqrt_0)
  show ?thesis
    using assms
    by (simp add: buildIndex_def c buildBtreeNode.simps saveNode_def leafData_def Let_def
        tell_def fwrite_append)
qed

lemma readNode_fwrite:
  assumes "uncompress E (compress E d) = Some d" "length d < 2 ^ 32"
    "length (compress E d) < 2 ^ 32"
  shows "readNode E (seek (fwrite f (put32 (length d) @ put32 (length (compress E d))
            @ compress E d @ rest)) p') (fpos f)
     = Inr (d, seek (fwrite f (put32 (length d) @ put32 (length (compress E d))
            @ compress E d @ rest)) (fpos f + 8 + length (compress E d)))"
proof -
  let ?c = "compress E d"
  let ?g = "fwrite f (put32 (length d) @ put32 (length ?c) @ ?c @ rest)"
  have s: "seek (seek ?g p') (fpos f) = seek ?g (fpos f)"
    by (simp add: seek_def)
  have r1: "fread (seek ?g (fpos f)) 4 = Inr (put32 (length d), seek ?g (fpos f + 4))"
    using fread_fwrite [of f "[]" "put32 (length d)" "put32 (length ?c) @ ?c @ rest"]
    by simp
  have r2: "fread (seek ?g (fpos f + 4)) 4 = Inr (put32 (length ?c), seek ?g (fpos f + 8))"
    using fread_fwrite [of f "put32 (length d)" "put32 (length ?c)" "?c @ rest"]
    by (simp add: add.commute)
  have r3: "fread (seek ?g (fpos f + 8)) (length ?c)
      = Inr (?c, seek ?g (fpos f + 8 + length ?c))"
    using fread_fwrite [of f "put32 (length d) @ put32 (length ?c)" ?c rest]
    by simp
  show ?thesis
    using assms
    by (simp add: readNode_def s fread32_def r1 r2 r3 get32_put32)
qed


text \<open>The outcome of the descent at an empty leaf: no chain, no exact match.\<close>

definition noMatch :: "bytes \<Rightarrow> bytes \<Rightarrow> lookup" where
  "noMatch leaf ext = \<lparr>chainOffset = None, chainBuf = leaf, exactMatch = False, extLeaf = ext,
     nextLeaf = 0, leafEnd = length leaf\<rparr>"

lemma findInLeaf_empty:
  "peek32 leaf 0 = 0 \<Longrightarrow>
     findInLeaf E rootOff target cur leaf ext g =
       (if cur = rootOff then Inr (noMatch leaf ext, g)
        else case fread32 g of Inl e \<Rightarrow> Inl e | Inr (nl, g1) \<Rightarrow> Inl CorruptedChainData)"
  by (simp add: findInLeaf_def noMatch_def split: sum.splits)

lemma descend_empty:
  "peek32 leaf 0 = 0 \<Longrightarrow>
     descend E (Suc fuel) n rootOff target cur leaf ext g =
       Some (if cur = rootOff then Inr (noMatch leaf ext, g)
             else case fread32 g of Inl e \<Rightarrow> Inl e | Inr (nl, g1) \<Rightarrow> Inl CorruptedChainData)"
  by (simp add: findInLeaf_empty)

lemma peek32_put32: "peek32 (put32 n) 0 = u32 n"
  by (simp add: peek32_def bytesAt_def get32_put32 u32_def)

lemma lookup_empty:
  assumes e: "skipEmptyWords m = []"
    and z: "uncompress E (compress E (put32 0)) = Some (put32 0)"
    and l: "length (compress E (put32 0)) < 2 ^ 32"
    and p: "fpos f < 2 ^ 32"
    and b: "buildIndex E m f = Some (info, f')"
  shows "findChainOffsetExactOrPrefix E (Suc fuel) (openIndex info f') target =
     Some (Inr (noMatch (put32 0) [],
       (openIndex info f')\<lparr>idxFile := Some (seek f' (fpos f + 8 + length (compress E (put32 0)))),
          rootNodeLoaded := True, rootNode := put32 0\<rparr>))"
proof -
  let ?c = "compress E (put32 0)"
  let ?g = "fwrite f (put32 4 @ put32 (length ?c) @ ?c @ put32 0)"
  from b buildIndex_empty [OF e, of E f]
  have i: "info = \<lparr>btreeMaxElements = 64, info_rootOffset = fpos f\<rparr>" and f': "f' = ?g"
    using p by (simp_all add: u32_def)
  have "seek ?g (fpos ?g) = ?g"
    by (simp add: seek_def)
  with readNode_fwrite [of E "put32 0" f "put32 0" "fpos ?g"] z l
  have r: "readNode E ?g (fpos f) = Inr (put32 0, seek ?g (fpos f + 8 + length ?c))"
    by simp
  have k: "peek32 (put32 0) 0 = 0"
    by (simp add: peek32_put32 u32_def)
  show ?thesis
    unfolding findChainOffsetExactOrPrefix_def i f' openIndex_def
    by (simp add: r descend_empty [OF k] del: descend.simps)
qed

text \<open>
  C8. \<open>buildIndex\<close> skips the leading entries with an empty key. When no entry remains,
  it writes one node at the cursor, a leaf whose data is the count word 0, and returns
  its offset as the root with the fanout 64. On the index so written (the codec restoring
  the node, the offset fitting 32 bits) the descent for any target returns the null
  pointer with no exact match and no error, and so \<open>findArticles\<close> returns the empty
  list. At a leaf whose count word is 0, the descent returns ``no match'' when the leaf is
  the root; when it is not the root it reads the forward link and then raises
  \<open>CorruptedChainData\<close>.
\<close>

theorem empty_index:
  "buildIndex E m f = buildIndex E (skipEmptyWords m) f \<and>
   (skipEmptyWords m = [] \<longrightarrow>
      buildIndex E m f =
        Some (\<lparr>btreeMaxElements = 64, info_rootOffset = u32 (fpos f)\<rparr>,
              fwrite f (put32 4 @ put32 (length (compress E (put32 0))) @ compress E (put32 0)
                        @ put32 0)) \<and>
      (uncompress E (compress E (put32 0)) = Some (put32 0) \<and>
       length (compress E (put32 0)) < 2 ^ 32 \<and> fpos f < 2 ^ 32 \<and>
       buildIndex E m f = Some (info, f') \<longrightarrow>
         (\<exists>idx'. findChainOffsetExactOrPrefix E (Suc fuel) (openIndex info f') target
                   = Some (Inr (noMatch (put32 0) [], idx'))) \<and>
         (\<exists>idx'. findArticles E (Suc fuel) (openIndex info f') q = Some (Inr ([], idx'))))) \<and>
   (peek32 leaf 0 = 0 \<longrightarrow>
      descend E (Suc fuel) n rootOff target cur leaf ext g =
        Some (if cur = rootOff then Inr (noMatch leaf ext, g)
              else case fread32 g of Inl e \<Rightarrow> Inl e
                   | Inr (nl, g1) \<Rightarrow> Inl CorruptedChainData))"
proof (intro conjI impI)
  show "buildIndex E m f = buildIndex E (skipEmptyWords m) f"
    by (rule buildIndex_skip)
next
  assume "skipEmptyWords m = []"
  then show "buildIndex E m f =
        Some (\<lparr>btreeMaxElements = 64, info_rootOffset = u32 (fpos f)\<rparr>,
              fwrite f (put32 4 @ put32 (length (compress E (put32 0))) @ compress E (put32 0)
                        @ put32 0))"
    by (rule buildIndex_empty)
next
  assume e: "skipEmptyWords m = []"
    and a: "uncompress E (compress E (put32 0)) = Some (put32 0) \<and>
       length (compress E (put32 0)) < 2 ^ 32 \<and> fpos f < 2 ^ 32 \<and>
       buildIndex E m f = Some (info, f')"
  from lookup_empty [OF e, of E f info f' fuel target] a
  show "\<exists>idx'. findChainOffsetExactOrPrefix E (Suc fuel) (openIndex info f') target
                   = Some (Inr (noMatch (put32 0) [], idx'))"
    by simp
next
  assume e: "skipEmptyWords m = []"
    and a: "uncompress E (compress E (put32 0)) = Some (put32 0) \<and>
       length (compress E (put32 0)) < 2 ^ 32 \<and> fpos f < 2 ^ 32 \<and>
       buildIndex E m f = Some (info, f')"
  from lookup_empty [OF e, of E f info f' fuel "Folding_apply E q"] a
  show "\<exists>idx'. findArticles E (Suc fuel) (openIndex info f') q = Some (Inr ([], idx'))"
    by (simp add: findArticles_def noMatch_def)
next
  assume "peek32 leaf 0 = 0"
  then show "descend E (Suc fuel) n rootOff target cur leaf ext g =
        Some (if cur = rootOff then Inr (noMatch leaf ext, g)
              else case fread32 g of Inl e \<Rightarrow> Inl e
                   | Inr (nl, g1) \<Rightarrow> Inl CorruptedChainData)"
    by (rule descend_empty)
qed

theorem empty_index_witness:
  "skipEmptyWords [([], [\<lparr>word = [], articleOffset = 5, prefix = []\<rparr>])] = [] \<and>
   buildIndex plain_env [([], [\<lparr>word = [], articleOffset = 5, prefix = []\<rparr>])]
       \<lparr>fdata = [], fpos = 0\<rparr>
     = Some (\<lparr>btreeMaxElements = 64, info_rootOffset = 0\<rparr>,
             \<lparr>fdata = [4, 0, 0, 0, 4, 0, 0, 0, 0, 0, 0, 0, 0, 0, 0, 0], fpos = 16\<rparr>) \<and>
   (\<exists>idx'. findChainOffsetExactOrPrefix plain_env 1
        (openIndex \<lparr>btreeMaxElements = 64, info_rootOffset = 0\<rparr>
           \<lparr>fdata = [4, 0, 0, 0, 4, 0, 0, 0, 0, 0, 0, 0, 0, 0, 0, 0], fpos = 16\<rparr>) [97]
        = Some (Inr (noMatch [0, 0, 0, 0] [], idx'))) \<and>
   (\<exists>idx'. findArticles plain_env 1
        (openIndex \<lparr>btreeMaxElements = 64, info_rootOffset = 0\<rparr>
           \<lparr>fdata = [4, 0, 0, 0, 4, 0, 0, 0, 0, 0, 0, 0, 0, 0, 0, 0], fpos = 16\<rparr>) [97]
        = Some (Inr ([], idx'))) \<and>
   descend plain_env 1 64 0 [97] 16 [0, 0, 0, 0] []
       \<lparr>fdata = [4, 0, 0, 0, 4, 0, 0, 0, 0, 0, 0, 0, 0, 0, 0, 0], fpos = 12\<rparr>
     = Some (Inl CorruptedChainData)"
proof -
  let ?m = "[([], [\<lparr>word = [], articleOffset = 5, prefix = []\<rparr>])] :: IndexedWords"
  let ?f = "\<lparr>fdata = [], fpos = 0\<rparr> :: idx_file"
  let ?g = "\<lparr>fdata = [4, 0, 0, 0, 4, 0, 0, 0, 0, 0, 0, 0, 0, 0, 0, 0], fpos = 16\<rparr> :: idx_file"
  let ?i = "\<lparr>btreeMaxElements = 64, info_rootOffset = 0\<rparr>"
  have s: "skipEmptyWords ?m = []"
    by simp
  have c: "put32 0 = [0, 0, 0, 0]" "put32 4 = [4, 0, 0, 0]"
    "compress plain_env [0, 0, 0, 0] = [0, 0, 0, 0]"
    "uncompress plain_env [0, 0, 0, 0] = Some [0, 0, 0, 0]"
    "length ([0, 0, 0, 0] :: bytes) = 4"
    by (simp_all add: plain_env_def put32_def)
  have w: "fwrite ?f [4, 0, 0, 0, 4, 0, 0, 0, 0, 0, 0, 0, 0, 0, 0, 0] = ?g"
    by (simp add: fwrite_def)
  have pk: "peek32 [0, 0, 0, 0] 0 = 0"
    by (simp add: peek32_def bytesAt_def get32_def)
  have fr: "fread32 \<lparr>fdata = [4, 0, 0, 0, 4, 0, 0, 0, 0, 0, 0, 0, 0, 0, 0, 0], fpos = 12\<rparr>
      = Inr (0, ?g)"
    by (simp add: fread32_def fread_def get32_def)
  note T = empty_index [of plain_env ?m ?f ?i ?g 0 "[97]" "[97]" "[0, 0, 0, 0]" 64 0 16 "[]"
      "\<lparr>fdata = [4, 0, 0, 0, 4, 0, 0, 0, 0, 0, 0, 0, 0, 0, 0, 0], fpos = 12\<rparr>"]
  note T1 = T [THEN conjunct2, THEN conjunct1, THEN mp, OF s]
  from T1 [THEN conjunct1] have b: "buildIndex plain_env ?m ?f = Some (?i, ?g)"
    unfolding c by (simp add: u32_def w)
  have "uncompress plain_env (compress plain_env (put32 0)) = Some (put32 0) \<and>
      length (compress plain_env (put32 0)) < 2 ^ 32 \<and> fpos ?f < 2 ^ 32 \<and>
      buildIndex plain_env ?m ?f = Some (?i, ?g)"
    using b unfolding c by simp
  from T1 [THEN conjunct2, THEN mp, OF this]
  have l: "(\<exists>idx'. findChainOffsetExactOrPrefix plain_env 1 (openIndex ?i ?g) [97]
                   = Some (Inr (noMatch [0, 0, 0, 0] [], idx'))) \<and>
         (\<exists>idx'. findArticles plain_env 1 (openIndex ?i ?g) [97] = Some (Inr ([], idx')))"
    unfolding c by simp
  from T [THEN conjunct2, THEN conjunct2, THEN mp, OF pk]
  have d: "descend plain_env 1 64 0 [97] 16 [0, 0, 0, 0] []
       \<lparr>fdata = [4, 0, 0, 0, 4, 0, 0, 0, 0, 0, 0, 0, 0, 0, 0, 0], fpos = 12\<rparr>
     = Some (Inl CorruptedChainData)"
    by (simp add: fr del: descend.simps)
  from s b l d show ?thesis
    by blast
qed

section \<open>BtreeWordSearchRequest: prefix and stemmed search\<close>

text \<open>
  The parameters of a \<open>BtreeWordSearchRequest\<close>. \<open>maxSuffixVariation\<close> is an \<open>int\<close>, negative
  for ``no bound''.
\<close>

record WordSearchRequest =
  str :: wstring
  maxResults :: nat
  minLength :: nat
  maxSuffixVariation :: int
  allowMiddleMatches :: bool

text \<open>\<open>static_cast<int>\<close> of a 32-bit unsigned value.\<close>

definition s32 :: "nat \<Rightarrow> int" where
  "s32 n = (if n mod 2 ^ 32 < 2 ^ 31 then int (n mod 2 ^ 32) else int (n mod 2 ^ 32) - 2 ^ 32)"

definition prefixMatch :: "wstring \<Rightarrow> nat \<Rightarrow> WordSearchRequest" where
  "prefixMatch w maxRes =
     \<lparr>str = w, maxResults = maxRes, minLength = 0, maxSuffixVariation = - 1,
      allowMiddleMatches = True\<rparr>"

definition stemmedMatch :: "wstring \<Rightarrow> nat \<Rightarrow> nat \<Rightarrow> nat \<Rightarrow> WordSearchRequest" where
  "stemmedMatch w minLen maxSuffixVar maxRes =
     \<lparr>str = w, maxResults = maxRes, minLength = minLen, maxSuffixVariation = s32 maxSuffixVar,
      allowMiddleMatches = False\<rparr>"

text \<open>
  The loop over the links of a chain whose folded head \<open>resultFolded\<close> starts with the
  target: a link is skipped when middle matches are not allowed and its folded prefix is
  not empty, or when a suffix variation is given and the head is longer than the initial
  target by more than it. The prefix is decoded only when middle matches are not allowed,
  and prefix + word only for a link that is kept.
\<close>

fun addMatches ::
  "env \<Rightarrow> WordSearchRequest \<Rightarrow> int \<Rightarrow> wstring \<Rightarrow> chain \<Rightarrow> wstring list
     \<Rightarrow> error + wstring list" where
  "addMatches E req initialFoldedSize resultFolded [] matches = Inr matches"
| "addMatches E req initialFoldedSize resultFolded (cx # rest) matches =
     (case (if allowMiddleMatches req then Inr True
            else case Utf8_decode E (prefix cx) of None \<Rightarrow> Inl CantDecodeUtf8
                 | Some p \<Rightarrow> Inr (Folding_apply E p = [])) of
        Inl e \<Rightarrow> Inl e
      | Inr noMiddle \<Rightarrow>
          if noMiddle \<and> (maxSuffixVariation req < 0 \<or>
               s32 (length resultFolded) - initialFoldedSize \<le> maxSuffixVariation req)
          then (case Utf8_decode E (prefix cx @ word cx) of None \<Rightarrow> Inl CantDecodeUtf8
                | Some m \<Rightarrow>
                    addMatches E req initialFoldedSize resultFolded rest (matches @ [m]))
          else addMatches E req initialFoldedSize resultFolded rest matches)"

text \<open>
  \<open>chain[ 0 ].word\<close>. On a chain of size 0 the source indexes an empty vector, which is
  undefined; the model reads the empty word there.
\<close>

definition headWord :: "chain \<Rightarrow> bytes" where
  "headWord c = (case c of [] \<Rightarrow> [] | l # ls \<Rightarrow> word l)"

text \<open>
  The inner loop of \<open>run\<close>: the walk over the chains from \<open>chainOffset\<close> (here \<open>ptr\<close>) on,
  up to \<open>leafEnd\<close> (here \<open>limit\<close>) and then through the forward links of the leaves (\<open>next\<close>
  is \<open>nextLeaf\<close>). On a file whose leaves link in a cycle it need not end, so
  it runs on fuel, one unit for each chain (\<open>None\<close> when the fuel runs out).
\<close>

fun walkChains ::
  "env \<Rightarrow> nat \<Rightarrow> WordSearchRequest \<Rightarrow> int \<Rightarrow> wstring \<Rightarrow> bytes \<Rightarrow> nat \<Rightarrow> nat \<Rightarrow> nat \<Rightarrow> idx_file
     \<Rightarrow> wstring list \<Rightarrow> (error + (wstring list \<times> idx_file)) option" where
  "walkChains E 0 req initialFoldedSize folded leaf ptr limit next f matches = None"
| "walkChains E (Suc fuel) req initialFoldedSize folded leaf ptr limit next f matches =
     (case readChain leaf ptr of Inl e \<Rightarrow> Some (Inl e)
      | Inr (chain, ptr') \<Rightarrow>
     (case Utf8_decode E (headWord chain) of None \<Rightarrow> Some (Inl CantDecodeUtf8)
      | Some chainHead \<Rightarrow>
     (let resultFolded = Folding_apply E chainHead
      in if length resultFolded \<ge> length folded \<and> take (length folded) resultFolded = folded
         then (case addMatches E req initialFoldedSize resultFolded chain matches of
                 Inl e \<Rightarrow> Some (Inl e)
               | Inr matches' \<Rightarrow>
                   if length matches' \<ge> maxResults req then Some (Inr (matches', f))
                   else if ptr' \<ge> limit
                   then (if next \<noteq> 0
                         then (case readNode E f next of Inl e \<Rightarrow> Some (Inl e)
                               | Inr (leaf', f1) \<Rightarrow>
                              (case fread32 f1 of Inl e \<Rightarrow> Some (Inl e)
                               | Inr (next', f2) \<Rightarrow>
                                   walkChains E fuel req initialFoldedSize folded leaf' 4
                                     (length leaf') next' f2 matches'))
                         else Some (Inr (matches', f)))
                   else walkChains E fuel req initialFoldedSize folded leaf ptr'
                          limit next f matches')
         else Some (Inr (matches, f)))))"

text \<open>
  One round of the outer loop of \<open>run\<close>: the descent for \<open>folded\<close>, and the walk from the
  chain it returns.
\<close>

definition searchPass ::
  "env \<Rightarrow> nat \<Rightarrow> nat \<Rightarrow> WordSearchRequest \<Rightarrow> int \<Rightarrow> wstring \<Rightarrow> BtreeIndex \<Rightarrow> wstring list
     \<Rightarrow> (error + (wstring list \<times> BtreeIndex)) option" where
  "searchPass E fuel walkFuel req initialFoldedSize folded idx matches =
     (case findChainOffsetExactOrPrefix E fuel idx folded of None \<Rightarrow> None
      | Some (Inl e) \<Rightarrow> Some (Inl e)
      | Some (Inr (r, idx1)) \<Rightarrow>
     (case chainOffset r of None \<Rightarrow> Some (Inr (matches, idx1))
      | Some p \<Rightarrow>
     (case idxFile idx1 of None \<Rightarrow> Some (Inl IndexWasNotOpened)
      | Some f \<Rightarrow>
     (case walkChains E walkFuel req initialFoldedSize folded (chainBuf r) p (leafEnd r)
             (nextLeaf r) f matches of
        None \<Rightarrow> None
      | Some (Inl e) \<Rightarrow> Some (Inl e)
      | Some (Inr (matches', f')) \<Rightarrow> Some (Inr (matches', idx1\<lparr>idxFile := Some f'\<rparr>))))))"

text \<open>
  How \<open>run\<close> ends: it finishes with its matches, it finishes with an error string (the
  dictionary failed to initialise), or an exception leaves it: one of the reader, or the
  \<open>std::length_error\<close> of \<open>folded.resize( folded.size() - 1 )\<close> on an empty string.
\<close>

datatype outcome =
  Finished "wstring list" BtreeIndex | Failed string | Thrown error | ThrownLengthError

text \<open>The outer loop of \<open>run\<close>, on \<open>charsLeftToChop\<close>.\<close>

fun chopLoop ::
  "env \<Rightarrow> nat \<Rightarrow> nat \<Rightarrow> WordSearchRequest \<Rightarrow> int \<Rightarrow> nat \<Rightarrow> wstring \<Rightarrow> BtreeIndex \<Rightarrow> wstring list
     \<Rightarrow> outcome option" where
  "chopLoop E fuel walkFuel req initialFoldedSize 0 folded idx matches =
     (case searchPass E fuel walkFuel req initialFoldedSize folded idx matches of
        None \<Rightarrow> None
      | Some (Inl e) \<Rightarrow> Some (Thrown e)
      | Some (Inr (matches', idx')) \<Rightarrow> Some (Finished matches' idx'))"
| "chopLoop E fuel walkFuel req initialFoldedSize (Suc charsLeftToChop) folded idx matches =
     (case searchPass E fuel walkFuel req initialFoldedSize folded idx matches of
        None \<Rightarrow> None
      | Some (Inl e) \<Rightarrow> Some (Thrown e)
      | Some (Inr (matches', idx')) \<Rightarrow>
          if folded = [] then Some ThrownLengthError
          else chopLoop E fuel walkFuel req initialFoldedSize charsLeftToChop (butlast folded)
                 idx' matches')"

text \<open>
  \<open>BtreeWordSearchRequest::run\<close>. The request is cancelled from another thread; the
  model has the flag as it is when \<open>run\<close> starts, and no cancellation while it runs.
  \<open>initError\<close> is the string of \<open>dict.ensureInitDone()\<close>.
\<close>

definition charsToChop :: "WordSearchRequest \<Rightarrow> int \<Rightarrow> int" where
  "charsToChop req initialFoldedSize =
     (if maxSuffixVariation req \<ge> 0
      then (let charsLeftToChop = initialFoldedSize - s32 (minLength req)
            in if charsLeftToChop < 0 then 0
               else if charsLeftToChop > maxSuffixVariation req then maxSuffixVariation req
               else charsLeftToChop)
      else 0)"

definition run ::
  "env \<Rightarrow> nat \<Rightarrow> nat \<Rightarrow> BtreeIndex \<Rightarrow> WordSearchRequest \<Rightarrow> bool \<Rightarrow> string \<Rightarrow> outcome option" where
  "run E fuel walkFuel idx req isCancelled initError =
     (if isCancelled then Some (Finished [] idx)
      else if initError \<noteq> [] then Some (Failed initError)
      else (let folded = Folding_apply E (str req);
                initialFoldedSize = s32 (length folded)
            in chopLoop E fuel walkFuel req initialFoldedSize
                 (nat (charsToChop req initialFoldedSize)) folded idx []))"

section \<open>Properties of the stemmed search without suffix variation\<close>

text \<open>
  What the two searches keep of a chain, in the words of the code's comments: a link is
  a middle match when its folded prefix is not empty; the match reported for a link is
  its prefix and word, decoded.
\<close>

definition noMiddleMatch :: "env \<Rightarrow> WordArticleLink \<Rightarrow> bool" where
  "noMiddleMatch E cx =
     (case Utf8_decode E (prefix cx) of None \<Rightarrow> False | Some p \<Rightarrow> Folding_apply E p = [])"

definition fullWord :: "env \<Rightarrow> WordArticleLink \<Rightarrow> wstring" where
  "fullWord E cx = (case Utf8_decode E (prefix cx @ word cx) of None \<Rightarrow> [] | Some w \<Rightarrow> w)"

definition decodable :: "env \<Rightarrow> chain \<Rightarrow> bool" where
  "decodable E c =
     list_all (\<lambda>cx. Utf8_decode E (prefix cx) \<noteq> None \<and> Utf8_decode E (prefix cx @ word cx) \<noteq> None) c"

lemma s32_small: "n < 2 ^ 31 \<Longrightarrow> s32 n = int n"
  by (simp add: s32_def)

lemma s32_0: "s32 0 = 0"
  by (simp add: s32_def)

lemma charsToChop_zero: "charsToChop (stemmedMatch w minLen 0 R) n = 0"
  by (simp add: charsToChop_def stemmedMatch_def s32_0 Let_def)

lemma charsToChop_prefix: "charsToChop (prefixMatch w R) n = 0"
  by (simp add: charsToChop_def prefixMatch_def)

lemma addMatches_all:
  "allowMiddleMatches req \<Longrightarrow> maxSuffixVariation req < 0 \<Longrightarrow> decodable E c \<Longrightarrow>
     addMatches E req n rf c ms = Inr (ms @ map (fullWord E) c)"
  by (induction c arbitrary: ms) (auto simp: decodable_def fullWord_def)

lemma addMatches_none:
  "\<not> allowMiddleMatches req \<Longrightarrow> 0 \<le> maxSuffixVariation req \<Longrightarrow>
   maxSuffixVariation req < s32 (length rf) - n \<Longrightarrow> decodable E c \<Longrightarrow>
     addMatches E req n rf c ms = Inr ms"
  by (induction c arbitrary: ms) (auto simp: decodable_def)

lemma addMatches_noMiddle:
  "\<not> allowMiddleMatches req \<Longrightarrow> s32 (length rf) - n \<le> maxSuffixVariation req \<Longrightarrow>
   decodable E c \<Longrightarrow>
     addMatches E req n rf c ms = Inr (ms @ map (fullWord E) (filter (noMiddleMatch E) c))"
  by (induction c arbitrary: ms) (auto simp: decodable_def fullWord_def noMiddleMatch_def)

lemma run_no_chop:
  "charsToChop req (s32 (length (Folding_apply E (str req)))) = 0 \<Longrightarrow>
     run E fuel walkFuel idx req c ie =
       (if c then Some (Finished [] idx)
        else if ie \<noteq> [] then Some (Failed ie)
        else (case searchPass E fuel walkFuel req (s32 (length (Folding_apply E (str req))))
                     (Folding_apply E (str req)) idx [] of
                None \<Rightarrow> None
              | Some (Inl e) \<Rightarrow> Some (Thrown e)
              | Some (Inr (ms, idx')) \<Rightarrow> Some (Finished ms idx')))"
  by (simp add: run_def Let_def)

text \<open>
  C9, as the code has it. With the suffix variation 0 the stemmed search chops nothing,
  whatever \<open>minLength\<close> is: like the prefix search it makes one descent, for the unchopped
  folded target, and walks the chains from there. The two do not report the same
  matches. From a chain whose folded head starts with the target (and whose links can be
  decoded) the prefix search reports every link; the stemmed search reports the links
  that are not middle matches, and only when the folded head is the target itself.
\<close>

theorem stemmedMatch_zero:
  "run E fuel walkFuel idx (stemmedMatch w minLen 0 R) c ie =
     (if c then Some (Finished [] idx)
      else if ie \<noteq> [] then Some (Failed ie)
      else (case searchPass E fuel walkFuel (stemmedMatch w minLen 0 R)
                   (s32 (length (Folding_apply E w))) (Folding_apply E w) idx [] of
              None \<Rightarrow> None
            | Some (Inl e) \<Rightarrow> Some (Thrown e)
            | Some (Inr (ms, idx')) \<Rightarrow> Some (Finished ms idx'))) \<and>
   run E fuel walkFuel idx (prefixMatch w R) c ie =
     (if c then Some (Finished [] idx)
      else if ie \<noteq> [] then Some (Failed ie)
      else (case searchPass E fuel walkFuel (prefixMatch w R)
                   (s32 (length (Folding_apply E w))) (Folding_apply E w) idx [] of
              None \<Rightarrow> None
            | Some (Inl e) \<Rightarrow> Some (Thrown e)
            | Some (Inr (ms, idx')) \<Rightarrow> Some (Finished ms idx'))) \<and>
   (decodable E chain \<and> length rf < 2 ^ 31 \<and> length folded \<le> length rf \<and>
    take (length folded) rf = folded \<longrightarrow>
      addMatches E (stemmedMatch w minLen 0 R) (s32 (length folded)) rf chain ms =
        Inr (ms @ (if rf = folded then map (fullWord E) (filter (noMiddleMatch E) chain)
                   else [])) \<and>
      addMatches E (prefixMatch w R) (s32 (length folded)) rf chain ms =
        Inr (ms @ map (fullWord E) chain))"
proof (intro conjI impI)
  have "str (stemmedMatch w minLen 0 R) = w"
    by (simp add: stemmedMatch_def)
  with run_no_chop [of "stemmedMatch w minLen 0 R" E fuel walkFuel idx c ie]
  show "run E fuel walkFuel idx (stemmedMatch w minLen 0 R) c ie =
     (if c then Some (Finished [] idx)
      else if ie \<noteq> [] then Some (Failed ie)
      else (case searchPass E fuel walkFuel (stemmedMatch w minLen 0 R)
                   (s32 (length (Folding_apply E w))) (Folding_apply E w) idx [] of
              None \<Rightarrow> None
            | Some (Inl e) \<Rightarrow> Some (Thrown e)
            | Some (Inr (ms, idx')) \<Rightarrow> Some (Finished ms idx')))"
    by (simp only: charsToChop_zero)
next
  have "str (prefixMatch w R) = w"
    by (simp add: prefixMatch_def)
  with run_no_chop [of "prefixMatch w R" E fuel walkFuel idx c ie]
  show "run E fuel walkFuel idx (prefixMatch w R) c ie =
     (if c then Some (Finished [] idx)
      else if ie \<noteq> [] then Some (Failed ie)
      else (case searchPass E fuel walkFuel (prefixMatch w R)
                   (s32 (length (Folding_apply E w))) (Folding_apply E w) idx [] of
              None \<Rightarrow> None
            | Some (Inl e) \<Rightarrow> Some (Thrown e)
            | Some (Inr (ms, idx')) \<Rightarrow> Some (Finished ms idx')))"
    by (simp only: charsToChop_prefix)
next
  assume a: "decodable E chain \<and> length rf < 2 ^ 31 \<and> length folded \<le> length rf \<and>
    take (length folded) rf = folded"
  then have d: "decodable E chain" and s: "s32 (length rf) = int (length rf)"
    "s32 (length folded) = int (length folded)"
    by (simp_all add: s32_small)
  have q: "\<not> allowMiddleMatches (stemmedMatch w minLen 0 R)"
    "maxSuffixVariation (stemmedMatch w minLen 0 R) = 0"
    by (simp_all add: stemmedMatch_def s32_0)
  show "addMatches E (stemmedMatch w minLen 0 R) (s32 (length folded)) rf chain ms =
        Inr (ms @ (if rf = folded then map (fullWord E) (filter (noMiddleMatch E) chain)
                   else []))"
  proof (cases "rf = folded")
    case True
    with addMatches_noMiddle [OF q(1) _ d, of rf "s32 (length folded)" ms] q(2)
    show ?thesis by simp
  next
    case False
    with a have "length folded < length rf"
      by (metis le_neq_implies_less take_all order_refl)
    with addMatches_none [OF q(1) _ _ d, of rf "s32 (length folded)" ms] q(2) s False
    show ?thesis by simp
  qed
  show "addMatches E (prefixMatch w R) (s32 (length folded)) rf chain ms =
        Inr (ms @ map (fullWord E) chain)"
    by (rule addMatches_all) (simp_all add: prefixMatch_def d)
qed

text \<open>
  The sample index once more: the searches for \<open>a\<close>. The prefix search reports \<open>a\<close>, \<open>Ab\<close>
  and \<open>x ab\<close>; the stemmed search with suffix variation 0 reports \<open>a\<close> alone.
\<close>

definition demo_loaded :: BtreeIndex where
  "demo_loaded = demo_index\<lparr>idxFile := Some (demo_file 59), rootNodeLoaded := True,
     rootNode := demo_leaf\<rparr>"

lemma demo_searchLeaf_a:
  "searchLeaf plain_env [97] demo_leaf [4, 15, 37] 0 3 = Inr (Exact 4)"
  by (subst searchLeaf_unfold, simp add: cstringAt_def demo_leaf_def plain_env_def wcstr_def
      toLower_def)+

lemma demo_lookup_a:
  "findChainOffsetExactOrPrefix plain_env 1 demo_index [97]
     = Some (Inr (demo_hit\<lparr>chainOffset := Some 4\<rparr>, demo_loaded))"
proof -
  have "searchLeaf plain_env [97] demo_leaf [4, 15, 37] 0 (Suc (Suc (Suc 0))) = Inr (Exact 4)"
    using demo_searchLeaf_a by (simp add: numeral_3_eq_3)
  then have "findInLeaf plain_env 0 [97] 0 demo_leaf [] f
      = Inr (demo_hit\<lparr>chainOffset := Some 4\<rparr>, f)" for f
    by (simp add: findInLeaf_def demo_leaf_count demo_chainPointers demo_leaf_length
        demo_hit_def)
  then show ?thesis
    by (simp add: findChainOffsetExactOrPrefix_def demo_index_def openIndex_def demo_readNode
        demo_leaf_count demo_loaded_def)
qed

lemma demo_readChain_a:
  "readChain demo_leaf 4 = Inr ([\<lparr>word = [97], articleOffset = 1, prefix = []\<rparr>], 15)"
proof -
  let ?l = "\<lparr>word = [97], articleOffset = 1, prefix = []\<rparr> :: WordArticleLink"
  have pk: "peek32 demo_leaf 4 = 7"
    by (simp add: peek32_def bytesAt_def get32_def demo_leaf_def)
  have ser: "serializeLink ?l = [97, 0, 0, 1, 0, 0, 0]"
    by (simp add: serializeLink_def put32_def)
  have "recordsAt demo_leaf 8 [?l]"
    by (simp add: ser linkAt_def cstringAt_def peek32_def bytesAt_def get32_def demo_leaf_def)
  moreover have "chainBytes [?l] = 7"
    by (simp add: chainBytes_def ser)
  ultimately show ?thesis
    using readChain_loop_complete [of demo_leaf 8 "[?l]" "[]"]
    by (simp add: readChain_def pk)
qed

lemma demo_readChain_x:
  "readChain demo_leaf 37
     = Inr ([\<lparr>word = [120, 32, 97, 98], articleOffset = 3, prefix = []\<rparr>], 51)"
proof -
  let ?l = "\<lparr>word = [120, 32, 97, 98], articleOffset = 3, prefix = []\<rparr> :: WordArticleLink"
  have pk: "peek32 demo_leaf 37 = 10"
    by (simp add: peek32_def bytesAt_def get32_def demo_leaf_def)
  have ser: "serializeLink ?l = [120, 32, 97, 98, 0, 0, 3, 0, 0, 0]"
    by (simp add: serializeLink_def put32_def)
  have "recordsAt demo_leaf 41 [?l]"
    by (simp add: ser linkAt_def cstringAt_def peek32_def bytesAt_def get32_def demo_leaf_def)
  moreover have "chainBytes [?l] = 10"
    by (simp add: chainBytes_def ser)
  ultimately show ?thesis
    using readChain_loop_complete [of demo_leaf 41 "[?l]" "[]"]
    by (simp add: readChain_def pk)
qed

lemma demo_decode:
  "Utf8_decode plain_env [] = Some []" "Utf8_decode plain_env [97] = Some [97]"
  "Utf8_decode plain_env [65, 98] = Some [65, 98]"
  "Utf8_decode plain_env [97, 98] = Some [97, 98]"
  "Utf8_decode plain_env [120, 32] = Some [120, 32]"
  "Utf8_decode plain_env [120, 32, 97, 98] = Some [120, 32, 97, 98]"
  by (simp_all add: plain_env_def)

lemma demo_fold:
  "Folding_apply plain_env [] = []" "Folding_apply plain_env [97] = [97]"
  "Folding_apply plain_env [65, 98] = [97, 98]"
  "Folding_apply plain_env [120, 32] = [120, 32]"
  "Folding_apply plain_env [120, 32, 97, 98] = [120, 32, 97, 98]"
  by (simp_all add: plain_env_def toLower_def)

lemma demo_walk_stemmed:
  "walkChains plain_env 3 (stemmedMatch [97] 0 0 10) 1 [97] demo_leaf 4 51 0 (demo_file 59) []
     = Some (Inr ([[97]], demo_file 59))"
  by (simp add: numeral_3_eq_3 demo_readChain_a demo_readChain demo_readChain_x headWord_def
      demo_decode demo_fold stemmedMatch_def s32_def)

lemma demo_walk_prefix:
  "walkChains plain_env 3 (prefixMatch [97] 10) 1 [97] demo_leaf 4 51 0 (demo_file 59) []
     = Some (Inr ([[97], [65, 98], [120, 32, 97, 98]], demo_file 59))"
  by (simp add: numeral_3_eq_3 demo_readChain_a demo_readChain demo_readChain_x headWord_def
      demo_decode demo_fold prefixMatch_def s32_def)

theorem stemmedMatch_not_prefixMatch:
  "run plain_env 1 3 demo_index (stemmedMatch [97] 0 0 10) False []
     = Some (Finished [[97]] demo_loaded) \<and>
   run plain_env 1 3 demo_index (prefixMatch [97] 10) False []
     = Some (Finished [[97], [65, 98], [120, 32, 97, 98]] demo_loaded)"
proof -
  have i: "s32 (length [97 :: wchar]) = 1"
    by (simp add: s32_def)
  have l: "idxFile demo_loaded = Some (demo_file 59)"
    "demo_loaded\<lparr>idxFile := Some (demo_file 59)\<rparr> = demo_loaded"
    by (simp_all add: demo_loaded_def)
  have k: "findChainOffsetExactOrPrefix plain_env (Suc 0) demo_index [97]
      = Some (Inr (demo_hit\<lparr>chainOffset := Some 4\<rparr>, demo_loaded))"
    using demo_lookup_a by simp
  have "searchPass plain_env 1 3 (stemmedMatch [97] 0 0 10) 1 [97] demo_index []
      = Some (Inr ([[97]], demo_loaded))"
    by (simp add: searchPass_def k demo_hit_def demo_walk_stemmed l)
  moreover have "searchPass plain_env 1 3 (prefixMatch [97] 10) 1 [97] demo_index []
      = Some (Inr ([[97], [65, 98], [120, 32, 97, 98]], demo_loaded))"
    by (simp add: searchPass_def k demo_hit_def demo_walk_prefix l)
  moreover have "str (stemmedMatch [97] 0 0 10) = [97]" "str (prefixMatch [97] 10) = [97]"
    by (simp_all add: stemmedMatch_def prefixMatch_def)
  moreover have "s32 (Suc 0) = 1"
    by (simp add: s32_def)
  ultimately show ?thesis
    by (simp add: run_def Let_def demo_fold charsToChop_zero charsToChop_prefix)
qed

theorem stemmedMatch_zero_witness:
  "addMatches plain_env (stemmedMatch [97] 5 0 10) 1 [97, 98]
     [\<lparr>word = [65, 98], articleOffset = 2, prefix = []\<rparr>,
      \<lparr>word = [97, 98], articleOffset = 3, prefix = [120, 32]\<rparr>] [[97]] = Inr [[97]] \<and>
   addMatches plain_env (stemmedMatch [97] 5 0 10) 2 [97, 98]
     [\<lparr>word = [65, 98], articleOffset = 2, prefix = []\<rparr>,
      \<lparr>word = [97, 98], articleOffset = 3, prefix = [120, 32]\<rparr>] [] = Inr [[65, 98]] \<and>
   addMatches plain_env (prefixMatch [97] 10) 1 [97, 98]
     [\<lparr>word = [65, 98], articleOffset = 2, prefix = []\<rparr>,
      \<lparr>word = [97, 98], articleOffset = 3, prefix = [120, 32]\<rparr>] [[97]]
     = Inr [[97], [65, 98], [120, 32, 97, 98]]"
proof -
  let ?c = "[\<lparr>word = [65, 98], articleOffset = 2, prefix = []\<rparr>,
      \<lparr>word = [97, 98], articleOffset = 3, prefix = [120, 32]\<rparr>] :: chain"
  have d: "decodable plain_env ?c"
    by (simp add: decodable_def demo_decode)
  have f: "map (fullWord plain_env) ?c = [[65, 98], [120, 32, 97, 98]]"
    "filter (noMiddleMatch plain_env) ?c = [\<lparr>word = [65, 98], articleOffset = 2, prefix = []\<rparr>]"
    by (simp_all add: fullWord_def noMiddleMatch_def demo_decode demo_fold)
  have i: "s32 (length [97 :: wchar]) = 1" "s32 (length [97 :: wchar, 98]) = 2"
    by (simp_all add: s32_def)
  have h1: "decodable plain_env ?c \<and> length [97 :: wchar, 98] < 2 ^ 31 \<and>
      length [97 :: wchar] \<le> length [97 :: wchar, 98] \<and>
      take (length [97 :: wchar]) [97, 98] = [97]"
    using d by simp
  have h2: "decodable plain_env ?c \<and> length [97 :: wchar, 98] < 2 ^ 31 \<and>
      length [97 :: wchar, 98] \<le> length [97 :: wchar, 98] \<and>
      take (length [97 :: wchar, 98]) [97, 98] = [97, 98]"
    using d by simp
  note T1 = stemmedMatch_zero [of plain_env 1 3 demo_index "[97]" 5 10 False "[]" ?c
      "[97, 98]" "[97]" "[[97]]", THEN conjunct2, THEN conjunct2, THEN mp, OF h1]
  note T2 = stemmedMatch_zero [of plain_env 1 3 demo_index "[97]" 5 10 False "[]" ?c
      "[97, 98]" "[97, 98]" "[]", THEN conjunct2, THEN conjunct2, THEN mp, OF h2]
  from T1 [THEN conjunct1]
  have one: "addMatches plain_env (stemmedMatch [97] 5 0 10) 1 [97, 98] ?c [[97]] = Inr [[97]]"
    unfolding i by (simp del: addMatches.simps)
  from T1 [THEN conjunct2]
  have two: "addMatches plain_env (prefixMatch [97] 10) 1 [97, 98] ?c [[97]]
       = Inr [[97], [65, 98], [120, 32, 97, 98]]"
    unfolding i f by (simp del: addMatches.simps)
  have g: "fullWord plain_env \<lparr>word = [65, 98], articleOffset = 2, prefix = []\<rparr> = [65, 98]"
    by (simp add: fullWord_def demo_decode)
  from T2 [THEN conjunct1]
  have three: "addMatches plain_env (stemmedMatch [97] 5 0 10) 2 [97, 98] ?c [] = Inr [[65, 98]]"
    unfolding i f by (simp add: g del: addMatches.simps)
  from one two three show ?thesis
    by (simp del: addMatches.simps)
qed

end
